theory Spec2Isabelle
  imports Complex_Main "HOL-Library.AList"
begin

section \<open>The Scrubbing Gate (scrubber.py)\<close>

subsection \<open>Text and character classes\<close>

text \<open>
  A Python \<open>str\<close> is a sequence of code points. Text is modelled as \<^typ>\<open>string\<close>, one
  \<^typ>\<open>char\<close> per code point, so the model covers the code points U+0000 to U+00FF.
  The classes below are the ones Python's \<open>re\<close> module uses for \<open>str\<close> patterns on that
  range: \<open>\d\<close> is the decimal digits, \<open>\s\<close> is \<open>str.isspace\<close>, \<open>\w\<close> is
  \<open>str.isalnum\<close> or the underscore.
\<close>

definition code :: "char \<Rightarrow> nat" where
  "code c = of_char c"

definition is_digit :: "char \<Rightarrow> bool" where
  "is_digit c = (48 \<le> code c \<and> code c \<le> 57)"

definition is_letter :: "char \<Rightarrow> bool" where
  "is_letter c = ((65 \<le> code c \<and> code c \<le> 90) \<or> (97 \<le> code c \<and> code c \<le> 122))"

definition is_alnum :: "char \<Rightarrow> bool" where
  "is_alnum c = (is_letter c \<or> is_digit c)"

definition is_space :: "char \<Rightarrow> bool" where
  "is_space c = ((9 \<le> code c \<and> code c \<le> 13) \<or> (28 \<le> code c \<and> code c \<le> 32)
                 \<or> code c = 133 \<or> code c = 160)"

definition is_word :: "char \<Rightarrow> bool" where
  "is_word c = (is_alnum c \<or> c = CHR ''_''
                \<or> code c \<in> {170, 178, 179, 181, 185, 186, 188, 189, 190}
                \<or> (192 \<le> code c \<and> code c \<noteq> 215 \<and> code c \<noteq> 247))"

text \<open>
  \<open>re.IGNORECASE\<close>: a literal of the pattern and a character of the text are compared
  after case folding. All literals of the five patterns are ASCII, and below U+0100 only
  the ASCII capitals fold onto ASCII letters.
\<close>

definition fold_case :: "char \<Rightarrow> nat" where
  "fold_case c = (if 65 \<le> code c \<and> code c \<le> 90 then code c + 32 else code c)"

fun ci_prefix :: "string \<Rightarrow> string \<Rightarrow> bool" where
  "ci_prefix [] s = True"
| "ci_prefix (p # ps) [] = False"
| "ci_prefix (p # ps) (c # cs) = (fold_case p = fold_case c \<and> ci_prefix ps cs)"

subsection \<open>The regular expressions of \<open>PATTERNS\<close> and their backtracking matcher\<close>

text \<open>
  Each of the five patterns is a sequence of items of four kinds: a character class under
  a greedy quantifier \<open>{lo,hi}\<close> (\<open>+\<close> is \<open>{1,}\<close>, \<open>*\<close> is \<open>{0,}\<close>, \<open>?\<close> is
  \<open>{0,1}\<close>), a literal, an ordered alternation of literals, and the word boundary
  \<open>\b\<close>.
\<close>

datatype item =
    Rep "char \<Rightarrow> bool" nat "nat option"
  | Lit string
  | Alt "string list"
  | WordB

fun first_some :: "('a \<Rightarrow> 'b option) \<Rightarrow> 'a list \<Rightarrow> 'b option" where
  "first_some f [] = None"
| "first_some f (x # xs) = (case f x of Some y \<Rightarrow> Some y | None \<Rightarrow> first_some f xs)"

text \<open>
  \<open>\b\<close> holds between two positions when exactly one of the neighbouring characters is
  a word character; beyond either end of the text there is no word character.
\<close>

definition at_boundary :: "char option \<Rightarrow> string \<Rightarrow> bool" where
  "at_boundary prev s =
     ((case prev of None \<Rightarrow> False | Some c \<Rightarrow> is_word c)
        \<noteq> (case s of [] \<Rightarrow> False | c # _ \<Rightarrow> is_word c))"

definition prev_after :: "char option \<Rightarrow> string \<Rightarrow> char option" where
  "prev_after prev u = (if u = [] then prev else Some (last u))"

definition greedy :: "(char \<Rightarrow> bool) \<Rightarrow> nat option \<Rightarrow> string \<Rightarrow> nat" where
  "greedy c hi s =
     (case hi of None \<Rightarrow> length (takeWhile c s) | Some h \<Rightarrow> min h (length (takeWhile c s)))"

text \<open>
  \<open>matchi pat prev s\<close> matches \<open>pat\<close> at the start of \<open>s\<close>, where \<open>prev\<close> is the
  character before \<open>s\<close> in the whole text, and returns the text left after the match.
  It is the backtracking search of \<open>re\<close>: a quantifier first takes as many characters as
  it can and gives them back one at a time, an alternation tries its branches from left
  to right, and the first way that lets the rest of the pattern match wins.
\<close>

fun matchi :: "item list \<Rightarrow> char option \<Rightarrow> string \<Rightarrow> string option" where
  "matchi [] prev s = Some s"
| "matchi (WordB # its) prev s = (if at_boundary prev s then matchi its prev s else None)"
| "matchi (Lit l # its) prev s =
     (if ci_prefix l s
      then matchi its (prev_after prev (take (length l) s)) (drop (length l) s)
      else None)"
| "matchi (Alt ls # its) prev s =
     first_some
       (\<lambda>l. if ci_prefix l s
            then matchi its (prev_after prev (take (length l) s)) (drop (length l) s)
            else None) ls"
| "matchi (Rep c lo hi # its) prev s =
     first_some (\<lambda>k. matchi its (prev_after prev (take k s)) (drop k s))
       (rev [lo ..< Suc (greedy c hi s)])"

text \<open>
  \<open>scan\<close> is the loop shared by \<open>pattern.findall\<close> and \<open>pattern.sub\<close>: it walks the text
  from left to right, tries the pattern at each position, and after a match goes on
  behind it, so matches never overlap. None of the five patterns matches the empty
  string (\<open>detector_progress\<close> below), so the branch for an empty match is never taken
  by them; there the model records the empty match and moves one character on.
\<close>

datatype seg = Keep char | Hit string

function scan :: "item list \<Rightarrow> char option \<Rightarrow> string \<Rightarrow> seg list" where
  "scan pat prev s =
     (case matchi pat prev s of
        Some r \<Rightarrow>
          (if length r < length s
           then Hit (take (length s - length r) s)
                  # scan pat (prev_after prev (take (length s - length r) s)) r
           else Hit [] # (case s of [] \<Rightarrow> [] | c # cs \<Rightarrow> Keep c # scan pat (Some c) cs))
      | None \<Rightarrow> (case s of [] \<Rightarrow> [] | c # cs \<Rightarrow> Keep c # scan pat (Some c) cs))"
  by pat_completeness auto
termination
  by (relation "measure (\<lambda>(pat, prev, s). length s)") auto

text \<open>
  \<open>findall\<close> lists the matches (for \<open>generic_secret\<close>, whose pattern has one group,
  Python lists the group's text instead: one entry per match all the same, and
  \<open>scrub_text\<close> only asks whether the list is empty); \<open>sub\<close> puts the replacement in the
  place of every match.
\<close>

definition findall :: "item list \<Rightarrow> string \<Rightarrow> string list" where
  "findall pat s = concat (map (\<lambda>g. case g of Hit m \<Rightarrow> [m] | Keep c \<Rightarrow> []) (scan pat None s))"

definition sub :: "item list \<Rightarrow> string \<Rightarrow> string \<Rightarrow> string" where
  "sub pat repl s = concat (map (\<lambda>g. case g of Hit m \<Rightarrow> repl | Keep c \<Rightarrow> [c]) (scan pat None s))"

text \<open>The five detectors, in the order of the \<open>PATTERNS\<close> dictionary.\<close>

definition email_pat :: "item list" where
  "email_pat = [Rep (\<lambda>c. is_alnum c \<or> c \<in> set ''_.+-'') 1 None, Lit ''@'',
                Rep (\<lambda>c. is_alnum c \<or> c = CHR ''-'') 1 None, Lit ''.'',
                Rep (\<lambda>c. is_alnum c \<or> c \<in> set ''-.'') 1 None]"

definition ip_pat :: "item list" where
  "ip_pat = [WordB, Rep is_digit 1 (Some 3), Lit ''.'', Rep is_digit 1 (Some 3), Lit ''.'',
             Rep is_digit 1 (Some 3), Lit ''.'', Rep is_digit 1 (Some 3), WordB]"

definition bearer_token_pat :: "item list" where
  "bearer_token_pat = [Lit ''Bearer'', Rep is_space 1 None,
                       Rep (\<lambda>c. is_alnum c \<or> c \<in> set ''-._~+/'') 1 None,
                       Rep (\<lambda>c. c = CHR ''='') 0 None]"

definition aws_key_pat :: "item list" where
  "aws_key_pat = [Lit ''AKIA'', Rep is_alnum 12 (Some 20)]"

definition quote_chars :: string where
  "quote_chars = [CHR 0x22, CHR 0x27]"

definition generic_secret_pat :: "item list" where
  "generic_secret_pat =
     [Alt [''api_key'', ''secret'', ''password'', ''token'', ''auth_token''],
      Rep (\<lambda>c. c \<in> set quote_chars) 0 (Some 1), Rep is_space 0 None,
      Rep (\<lambda>c. c \<in> set '':='') 1 (Some 1), Rep is_space 0 None,
      Rep (\<lambda>c. c \<in> set quote_chars) 0 (Some 1),
      Rep (\<lambda>c. is_alnum c \<or> c \<in> set ''_-'') 12 None]"

definition PATTERNS :: "(string \<times> item list) list" where
  "PATTERNS = [(''email'', email_pat), (''ip'', ip_pat), (''bearer_token'', bearer_token_pat),
               (''aws_key'', aws_key_pat), (''generic_secret'', generic_secret_pat)]"

subsection \<open>\<open>scrub_text\<close>, \<open>scrub_object\<close>, \<open>validate_ingestion\<close>\<close>

definition upper_char :: "char \<Rightarrow> char" where
  "upper_char c =
     (case map_of (zip ''abcdefghijklmnopqrstuvwxyz'' ''ABCDEFGHIJKLMNOPQRSTUVWXYZ'') c of
        Some u \<Rightarrow> u | None \<Rightarrow> c)"

definition placeholder :: "string \<Rightarrow> string" where
  "placeholder name = ''[REDACTED_'' @ map upper_char name @ '']''"

text \<open>
  One round of the loop of \<open>scrub_text\<close>. The line that \<open>_log_redaction\<close> appends to the
  audit file is not part of the model: the file is never read back, and a failure to
  write it is caught.
\<close>

definition redact :: "string \<times> item list \<Rightarrow> string \<Rightarrow> string" where
  "redact d scrubbed =
     (if findall (snd d) scrubbed \<noteq> [] then sub (snd d) (placeholder (fst d)) scrubbed
      else scrubbed)"

definition scrub_text :: "string \<Rightarrow> string" where
  "scrub_text text = (if text = [] then [] else fold redact PATTERNS text)"

text \<open>
  Property values: strings, dictionaries (in insertion order), lists, and the leaves that
  \<open>scrub_object\<close> passes through unchanged.
\<close>

datatype pyval =
    PStr string
  | PDict (items: "(string \<times> pyval) list")
  | PList "pyval list"
  | PNone
  | PBool bool
  | PInt int
  | PFloat real

type_synonym props = "(string \<times> pyval) list"

primrec scrub_object :: "pyval \<Rightarrow> pyval" where
  "scrub_object (PStr s) = PStr (scrub_text s)"
| "scrub_object (PDict kvs) = PDict (map (map_prod id scrub_object) kvs)"
| "scrub_object (PList vs) = PList (map scrub_object vs)"
| "scrub_object PNone = PNone"
| "scrub_object (PBool b) = PBool b"
| "scrub_object (PInt i) = PInt i"
| "scrub_object (PFloat x) = PFloat x"

definition validate_ingestion :: "string \<Rightarrow> string \<Rightarrow> props \<Rightarrow> props" where
  "validate_ingestion uid obj_type properties = items (scrub_object (PDict properties))"

section \<open>The Graph Kernel (graph_kernel.py)\<close>

subsection \<open>Objects and dictionaries\<close>

text \<open>
  \<open>links\<close> is a Python set of pairs \<open>(neighbor_uid, link_type)\<close>. It is modelled as a
  list without repetitions; the order of the list stands for the order in which Python
  happens to iterate over the set, which the language leaves open.
\<close>

record GraphObject =
  uid :: string
  otype :: string
  properties :: props
  links :: "(string \<times> string) list"
  created_at :: string

definition set_add :: "'a \<Rightarrow> 'a list \<Rightarrow> 'a list" where
  "set_add x xs = (if x \<in> set xs then xs else xs @ [x])"

definition set_update :: "'a list \<Rightarrow> 'a list \<Rightarrow> 'a list" where
  "set_update xs new = fold set_add new xs"

definition add_link :: "string \<Rightarrow> string \<Rightarrow> GraphObject \<Rightarrow> GraphObject" where
  "add_link neighbor_uid link_type obj = obj\<lparr>links := set_add (neighbor_uid, link_type) (links obj)\<rparr>"

text \<open>
  A dictionary is an association list in insertion order with one entry per key:
  \<open>d[k] = v\<close> is \<^const>\<open>AList.update\<close> (replace in place, or append), \<open>k in d\<close> and
  \<open>d[k]\<close> are \<^const>\<open>map_of\<close>, and \<open>d.update(new)\<close> (also \<open>{..., **new}\<close>) stores the
  entries of \<open>new\<close> one after the other.
\<close>

definition dict_update :: "('k \<times> 'v) list \<Rightarrow> ('k \<times> 'v) list \<Rightarrow> ('k \<times> 'v) list" where
  "dict_update d new = fold (\<lambda>kv. AList.update (fst kv) (snd kv)) new d"

subsection \<open>The durable store\<close>

datatype error = OperationalError | JSONDecodeError | TypeError | KeyError

text \<open>
  The \<open>data\<close> column holds text or \<open>NULL\<close>. A cell is the text that \<open>json.dumps\<close> made
  of a property map, which \<open>json.loads\<close> reads back as that map; or text that is not
  JSON, which \<open>json.loads\<close> rejects with \<open>JSONDecodeError\<close>; or \<open>NULL\<close>, which reaches
  \<open>json.loads\<close> as \<open>None\<close> and makes it raise \<open>TypeError\<close>. The kernel itself writes
  cells of the first kind only. JSON text of a value that is not an object (a number, a
  list, \<open>null\<close>) is not covered by this type: \<open>json.loads\<close> would accept it, and the
  object would hold a value that is no property map.
\<close>

datatype text_cell = Dumped props | Garbled string | Null

definition json_dumps :: "props \<Rightarrow> text_cell" where
  "json_dumps p = Dumped p"

fun json_loads :: "text_cell \<Rightarrow> error + props" where
  "json_loads (Dumped p) = Inr p"
| "json_loads (Garbled t) = Inl JSONDecodeError"
| "json_loads Null = Inl TypeError"

type_synonym object_row = "string \<times> string \<times> text_cell \<times> string"

type_synonym link_row = "string \<times> string \<times> string"

record database =
  objects_tbl :: "object_row list"
  links_tbl :: "link_row list"

text \<open>
  \<open>INSERT OR REPLACE\<close> on the primary key \<open>uid\<close> removes the row of that uid and adds
  the new one; \<open>INSERT OR IGNORE\<close> on the primary key \<open>(source, target, type)\<close> adds the
  row unless it is there.
\<close>

definition insert_or_replace_object :: "object_row \<Rightarrow> database \<Rightarrow> database" where
  "insert_or_replace_object r db =
     db\<lparr>objects_tbl := filter (\<lambda>r'. fst r' \<noteq> fst r) (objects_tbl db) @ [r]\<rparr>"

definition insert_or_ignore_link :: "link_row \<Rightarrow> database \<Rightarrow> database" where
  "insert_or_ignore_link l db = db\<lparr>links_tbl := set_add l (links_tbl db)\<rparr>"

subsection \<open>The kernel's state\<close>

text \<open>
  The state is the in-memory index \<open>self.objects\<close>, the SQLite database behind
  \<open>storage_path\<close>, and the fate of the coming database sessions: every
  \<open>with sqlite3.connect(...) as conn\<close> block takes the head of \<open>io_faults\<close>, and \<open>True\<close>
  means that the block raises \<open>sqlite3.OperationalError\<close>; the connection then rolls the
  transaction back, so that the database is as before. With no entry left the block
  succeeds.
\<close>

type_synonym index = "(string \<times> GraphObject) list"

record world =
  objects :: index
  storage :: database
  io_faults :: "bool list"

type_synonym 'a outcome = "(error + 'a) \<times> world"

definition connect :: "world \<Rightarrow> unit outcome" where
  "connect w =
     (case io_faults w of
        [] \<Rightarrow> (Inr (), w)
      | fault # rest \<Rightarrow> (if fault then Inl OperationalError else Inr (), w\<lparr>io_faults := rest\<rparr>))"

definition transaction :: "(database \<Rightarrow> database) \<Rightarrow> world \<Rightarrow> unit outcome" where
  "transaction f w =
     (case fst (connect w) of
        Inl e \<Rightarrow> (Inl e, snd (connect w))
      | Inr _ \<Rightarrow> (Inr (), (snd (connect w))\<lparr>storage := f (storage w)\<rparr>))"

text \<open>Sequencing of two statements: an exception of the first ends the function.\<close>

definition and_then :: "'a outcome \<Rightarrow> ('a \<Rightarrow> world \<Rightarrow> 'b outcome) \<Rightarrow> 'b outcome" where
  "and_then r f = (case fst r of Inl e \<Rightarrow> (Inl e, snd r) | Inr x \<Rightarrow> f x (snd r))"

subsection \<open>\<open>upsert_object\<close> and \<open>link\<close>\<close>

definition merge_into :: "GraphObject \<Rightarrow> GraphObject \<Rightarrow> GraphObject" where
  "merge_into existing obj =
     existing\<lparr>properties := dict_update (properties existing) (properties obj),
              links := set_update (links existing) (links obj)\<rparr>"

definition persist_object :: "GraphObject \<Rightarrow> database \<Rightarrow> database" where
  "persist_object obj db =
     fold (\<lambda>l. insert_or_ignore_link (uid obj, fst l, snd l)) (links obj)
       (insert_or_replace_object (uid obj, otype obj, json_dumps (properties obj), created_at obj) db)"

definition upsert_object :: "GraphObject \<Rightarrow> world \<Rightarrow> unit outcome" where
  "upsert_object obj0 w =
     (let obj = obj0\<lparr>properties := validate_ingestion (uid obj0) (otype obj0) (properties obj0)\<rparr>;
          w1 = (case map_of (objects w) (uid obj) of
                  Some existing \<Rightarrow>
                    w\<lparr>objects := AList.update (uid obj) (merge_into existing obj) (objects w)\<rparr>
                | None \<Rightarrow> w\<lparr>objects := AList.update (uid obj) obj (objects w)\<rparr>)
      in transaction (persist_object obj) w1)"

definition add_link_at :: "string \<Rightarrow> string \<Rightarrow> string \<Rightarrow> index \<Rightarrow> index" where
  "add_link_at k neighbor_uid link_type idx = AList.map_entry k (add_link neighbor_uid link_type) idx"

definition persist_links :: "string \<Rightarrow> string \<Rightarrow> string \<Rightarrow> bool \<Rightarrow> database \<Rightarrow> database" where
  "persist_links source_uid target_uid link_type bidirectional db =
     (let db1 = insert_or_ignore_link (source_uid, target_uid, link_type) db
      in if bidirectional
         then insert_or_ignore_link (target_uid, source_uid, ''inverse_'' @ link_type) db1
         else db1)"

text \<open>The \<open>else\<close> branch of \<open>link\<close> only logs a warning.\<close>

definition link :: "string \<Rightarrow> string \<Rightarrow> string \<Rightarrow> bool \<Rightarrow> world \<Rightarrow> unit outcome" where
  "link source_uid target_uid link_type bidirectional w =
     (if map_of (objects w) source_uid \<noteq> None \<and> map_of (objects w) target_uid \<noteq> None
      then
        let idx1 = add_link_at source_uid target_uid link_type (objects w);
            idx2 = (if bidirectional
                    then add_link_at target_uid source_uid (''inverse_'' @ link_type) idx1
                    else idx1)
        in transaction (persist_links source_uid target_uid link_type bidirectional)
             (w\<lparr>objects := idx2\<rparr>)
      else (Inr (), w))"

subsection \<open>\<open>get_neighborhood\<close>\<close>

text \<open>
  \<open>cluster\<close> is the dictionary of the objects found so far, in the order in which they
  were found; \<open>queue\<close> holds the uids still to expand, each with its depth. \<open>discover\<close>
  is the body of the inner \<open>for\<close> loop, \<open>bfs\<close> the \<open>while\<close> loop. Reading
  \<open>self.objects[current_uid]\<close> for a uid that is not in the index would raise
  \<open>KeyError\<close>.
\<close>

type_synonym cluster = "(string \<times> GraphObject) list"
type_synonym queue = "(string \<times> int) list"

definition discover :: "index \<Rightarrow> int \<Rightarrow> string \<times> string \<Rightarrow> cluster \<times> queue \<Rightarrow> cluster \<times> queue" where
  "discover idx current_depth l cq =
     (case map_of idx (fst l) of
        Some obj \<Rightarrow>
          if map_of (fst cq) (fst l) = None
          then (fst cq @ [(fst l, obj)], snd cq @ [(fst l, current_depth + 1)])
          else cq
      | None \<Rightarrow> cq)"

definition undiscovered :: "index \<Rightarrow> cluster \<Rightarrow> nat" where
  "undiscovered idx cluster = card (fst ` set idx - fst ` set cluster)"

lemma discover_measure:
  "2 * undiscovered idx (fst (discover idx d l cq)) + length (snd (discover idx d l cq))
     \<le> 2 * undiscovered idx (fst cq) + length (snd cq)"
proof (cases "map_of idx (fst l)")
  case None
  then show ?thesis by (simp add: discover_def)
next
  case (Some obj)
  show ?thesis
  proof (cases "map_of (fst cq) (fst l) = None")
    case False
    with Some show ?thesis by (auto simp: discover_def)
  next
    case True
    have in_idx: "fst l \<in> fst ` set idx"
      using Some by (metis map_of_eq_None_iff option.distinct(1))
    have not_in: "fst l \<notin> fst ` set (fst cq)"
      using True by (simp add: map_of_eq_None_iff)
    have "fst ` set idx - fst ` set (fst cq @ [(fst l, obj)])
            = (fst ` set idx - fst ` set (fst cq)) - {fst l}"
      by auto
    moreover have "fst l \<in> fst ` set idx - fst ` set (fst cq)"
      using in_idx not_in by simp
    ultimately have "Suc (undiscovered idx (fst cq @ [(fst l, obj)])) = undiscovered idx (fst cq)"
      unfolding undiscovered_def using card_Suc_Diff1 [of "fst ` set idx - fst ` set (fst cq)" "fst l"]
      by simp
    with Some True show ?thesis by (simp add: discover_def)
  qed
qed

lemma fold_discover_measure:
  "2 * undiscovered idx (fst (fold (discover idx d) ls cq)) + length (snd (fold (discover idx d) ls cq))
     \<le> 2 * undiscovered idx (fst cq) + length (snd cq)"
proof (induction ls arbitrary: cq)
  case Nil
  show ?case by simp
next
  case (Cons l ls)
  have "2 * undiscovered idx (fst (fold (discover idx d) ls (discover idx d l cq)))
          + length (snd (fold (discover idx d) ls (discover idx d l cq)))
        \<le> 2 * undiscovered idx (fst (discover idx d l cq)) + length (snd (discover idx d l cq))"
    by (rule Cons.IH)
  also have "\<dots> \<le> 2 * undiscovered idx (fst cq) + length (snd cq)"
    by (rule discover_measure)
  finally show ?case by simp
qed

function bfs :: "index \<Rightarrow> int \<Rightarrow> cluster \<Rightarrow> queue \<Rightarrow> error + cluster" where
  "bfs idx depth cluster [] = Inr cluster"
| "bfs idx depth cluster ((current_uid, current_depth) # queue) =
     (if current_depth \<ge> depth then bfs idx depth cluster queue
      else case map_of idx current_uid of
             None \<Rightarrow> Inl KeyError
           | Some obj \<Rightarrow>
               bfs idx depth (fst (fold (discover idx current_depth) (links obj) (cluster, queue)))
                 (snd (fold (discover idx current_depth) (links obj) (cluster, queue))))"
  by pat_completeness auto
termination
proof (relation "measure (\<lambda>(idx, depth, cluster, queue). 2 * undiscovered idx cluster + length queue)")
  show "wf (measure (\<lambda>(idx, depth, cluster, queue). 2 * undiscovered idx cluster + length queue))"
    by simp
next
  fix idx :: index and depth :: int and cluster :: cluster and current_uid current_depth queue
  show "((idx, depth, cluster, queue), (idx, depth, cluster, (current_uid, current_depth) # queue))
          \<in> measure (\<lambda>(idx, depth, cluster, queue). 2 * undiscovered idx cluster + length queue)"
    by simp
next
  fix idx :: index and depth :: int and cluster :: cluster and current_uid current_depth queue obj
  have "2 * undiscovered idx (fst (fold (discover idx current_depth) (links obj) (cluster, queue)))
          + length (snd (fold (discover idx current_depth) (links obj) (cluster, queue)))
        \<le> 2 * undiscovered idx cluster + length queue"
    using fold_discover_measure [of idx current_depth "links obj" "(cluster, queue)"] by simp
  then show "((idx, depth, fst (fold (discover idx current_depth) (links obj) (cluster, queue)),
               snd (fold (discover idx current_depth) (links obj) (cluster, queue))),
              (idx, depth, cluster, (current_uid, current_depth) # queue))
          \<in> measure (\<lambda>(idx, depth, cluster, queue). 2 * undiscovered idx cluster + length queue)"
    by (simp add: case_prod_unfold)
qed

definition get_neighborhood :: "world \<Rightarrow> string \<Rightarrow> int \<Rightarrow> error + GraphObject list" where
  "get_neighborhood w seed depth =
     (case map_of (objects w) seed of
        None \<Rightarrow> Inr []
      | Some obj \<Rightarrow>
          (case bfs (objects w) depth [(seed, obj)] [(seed, 0)] of
             Inl e \<Rightarrow> Inl e
           | Inr cluster \<Rightarrow> Inr (map snd cluster)))"


subsection \<open>The ingestion helpers\<close>

text \<open>
  \<open>datetime.now\<close> is read once for every \<open>GraphObject\<close> that is built (the default of
  \<open>created_at\<close>) and once for the uid of a finding; the values read are parameters of
  the model. So is \<open>str_of\<close>, the text that an f-string makes of a property value
  (for a string, the string itself).
\<close>

definition ensure_module :: "string \<Rightarrow> pyval \<Rightarrow> string \<Rightarrow> world \<Rightarrow> unit outcome" where
  "ensure_module module_uid name now w =
     (if map_of (objects w) module_uid = None
      then upsert_object \<lparr>uid = module_uid, otype = ''module'', properties = [(''name'', name)],
                          links = [], created_at = now\<rparr> w
      else (Inr (), w))"

definition ingest_symbol ::
  "string \<Rightarrow> string \<Rightarrow> string \<Rightarrow> props \<Rightarrow> string \<Rightarrow> string \<Rightarrow> world \<Rightarrow> string outcome" where
  "ingest_symbol rel_path name symbol_type props now1 now2 w =
     (let symbol_uid = ''symbol:'' @ rel_path @ '':'' @ name;
          obj = \<lparr>uid = symbol_uid, otype = ''symbol'',
                 properties = dict_update [(''name'', PStr name), (''file_path'', PStr rel_path),
                                           (''symbol_type'', PStr symbol_type)] props,
                 links = [], created_at = now1\<rparr>;
          module_uid = ''module:'' @ rel_path
      in and_then (upsert_object obj w) (\<lambda>_ w1.
         and_then (ensure_module module_uid (PStr rel_path) now2 w1) (\<lambda>_ w2.
         and_then (link module_uid symbol_uid ''defines'' True w2) (\<lambda>_ w3.
         (Inr symbol_uid, w3)))))"

text \<open>
  \<open>properties['focus_symbol'] in self.objects\<close> hashes the value: a list or a dictionary
  raises \<open>TypeError\<close>, and a value that is not a string is no key of the index.
\<close>

definition link_focus :: "string \<Rightarrow> props \<Rightarrow> world \<Rightarrow> unit outcome" where
  "link_focus intent_uid props w =
     (case map_of props ''focus_symbol'' of
        None \<Rightarrow> (Inr (), w)
      | Some (PStr symbol_uid) \<Rightarrow>
          if map_of (objects w) symbol_uid \<noteq> None then link intent_uid symbol_uid ''clarifies'' True w
          else (Inr (), w)
      | Some (PDict _) \<Rightarrow> (Inl TypeError, w)
      | Some (PList _) \<Rightarrow> (Inl TypeError, w)
      | Some _ \<Rightarrow> (Inr (), w))"

definition ingest_intent ::
  "(pyval \<Rightarrow> string) \<Rightarrow> string \<Rightarrow> string \<Rightarrow> props \<Rightarrow> string \<Rightarrow> string \<Rightarrow> world \<Rightarrow> string outcome" where
  "ingest_intent str_of intent_id content props now1 now2 w =
     (let intent_uid = ''intent:'' @ intent_id;
          obj = \<lparr>uid = intent_uid, otype = ''intent'',
                 properties = dict_update [(''content'', PStr content)] props,
                 links = [], created_at = now1\<rparr>
      in and_then (upsert_object obj w) (\<lambda>_ w1.
         and_then (link_focus intent_uid props w1) (\<lambda>_ w2.
         and_then
           (case map_of props ''file_path'' of
              None \<Rightarrow> (Inr (), w2)
            | Some file_path \<Rightarrow>
                and_then (ensure_module (''module:'' @ str_of file_path) file_path now2 w2) (\<lambda>_ w3.
                link intent_uid (''module:'' @ str_of file_path) ''described_in'' True w3))
           (\<lambda>_ w4. (Inr intent_uid, w4)))))"

definition ingest_finding ::
  "(pyval \<Rightarrow> string) \<Rightarrow> string \<Rightarrow> string \<Rightarrow> string \<Rightarrow> string \<Rightarrow> props \<Rightarrow> string \<Rightarrow> string \<Rightarrow> string
     \<Rightarrow> world \<Rightarrow> string outcome" where
  "ingest_finding str_of rel_path finding_type severity message props timestamp now1 now2 w =
     (let finding_uid = ''finding:'' @ rel_path @ '':'' @ finding_type @ '':'' @ timestamp;
          obj = \<lparr>uid = finding_uid, otype = ''finding'',
                 properties = dict_update [(''finding_type'', PStr finding_type), (''severity'', PStr severity),
                                           (''message'', PStr message), (''file_path'', PStr rel_path)] props,
                 links = [], created_at = now1\<rparr>;
          module_uid = ''module:'' @ rel_path
      in and_then (upsert_object obj w) (\<lambda>_ w1.
         and_then (ensure_module module_uid (PStr rel_path) now2 w1) (\<lambda>_ w2.
         and_then (link finding_uid module_uid ''violates'' True w2) (\<lambda>_ w3.
         and_then
           (case map_of props ''focus_symbol'' of
              None \<Rightarrow> (Inr (), w3)
            | Some focus \<Rightarrow>
                if map_of (objects w3) (''symbol:'' @ rel_path @ '':'' @ str_of focus) \<noteq> None
                then link finding_uid (''symbol:'' @ rel_path @ '':'' @ str_of focus) ''targets'' True w3
                else (Inr (), w3))
           (\<lambda>_ w4. (Inr finding_uid, w4))))))"

subsection \<open>Construction and \<open>_load\<close>\<close>

text \<open>
  \<open>load_objects\<close> is the first \<open>for\<close> loop of \<open>_load\<close>: \<open>json.loads\<close> has no handler
  around it, so its exception ends the loop, with the rows before it already in the
  index. \<open>load_links\<close> is the second loop. A fault of the database session strikes at
  its first statement.
\<close>

fun load_objects :: "object_row list \<Rightarrow> index \<Rightarrow> (error + unit) \<times> index" where
  "load_objects [] idx = (Inr (), idx)"
| "load_objects ((u, type_name, data_json, created) # rows) idx =
     (case json_loads data_json of
        Inl e \<Rightarrow> (Inl e, idx)
      | Inr p \<Rightarrow>
          load_objects rows
            (AList.update u \<lparr>uid = u, otype = type_name, properties = p, links = [],
                              created_at = created\<rparr> idx))"

definition load_links :: "link_row list \<Rightarrow> index \<Rightarrow> index" where
  "load_links rows idx =
     fold (\<lambda>row idx'. case row of (source, target, link_type) \<Rightarrow>
             if map_of idx' source \<noteq> None then add_link_at source target link_type idx' else idx')
       rows idx"

definition load :: "bool \<Rightarrow> world \<Rightarrow> unit outcome" where
  "load path_exists w =
     (if \<not> path_exists then (Inr (), w)
      else and_then (connect w) (\<lambda>_ w1.
             case fst (load_objects (objects_tbl (storage w1)) (objects w1)) of
               Inl e \<Rightarrow> (Inl e, w1\<lparr>objects := snd (load_objects (objects_tbl (storage w1)) (objects w1))\<rparr>)
             | Inr _ \<Rightarrow>
                 (Inr (), w1\<lparr>objects := load_links (links_tbl (storage w1))
                                           (snd (load_objects (objects_tbl (storage w1)) (objects w1)))\<rparr>)))"

text \<open>
  \<open>GraphKernel(storage_path)\<close>: an empty index, \<open>_init_db\<close> (both tables are created
  unless they exist, which leaves their rows as they are), then \<open>_load\<close>; after
  \<open>_init_db\<close> the file exists.
\<close>

definition init_db :: "world \<Rightarrow> unit outcome" where
  "init_db w = transaction (\<lambda>db. db) w"

definition new_kernel :: "database \<Rightarrow> bool list \<Rightarrow> unit outcome" where
  "new_kernel db faults =
     and_then (init_db \<lparr>objects = [], storage = db, io_faults = faults\<rparr>) (\<lambda>_ w. load True w)"

section \<open>Notions used in the statements\<close>

text \<open>
  \<open>scrubbed_obj\<close> is the object after the first statement of \<open>upsert_object\<close>;
  \<open>session_fails\<close> says that the next database session raises; \<open>links_of\<close> is the link
  set of a uid in an index; \<open>gate_passed\<close> says that a cell holds a property map that
  came out of \<open>validate_ingestion\<close>; \<open>scrubbed_writes w w'\<close> says that every row of the
  objects relation of \<open>w'\<close> was in \<open>w\<close> already or passed the gate; \<open>strip_links\<close>
  forgets the links of an object; \<open>linked_index\<close> is the index after the two
  \<open>add_link\<close> calls of \<open>link\<close>. The remaining definitions are sample data.
\<close>

definition scrubbed_obj :: "GraphObject \<Rightarrow> GraphObject" where
  "scrubbed_obj obj = obj\<lparr>properties := validate_ingestion (uid obj) (otype obj) (properties obj)\<rparr>"

definition session_fails :: "world \<Rightarrow> bool" where
  "session_fails w = (case io_faults w of [] \<Rightarrow> False | fault # _ \<Rightarrow> fault)"

definition links_of :: "index \<Rightarrow> string \<Rightarrow> (string \<times> string) set" where
  "links_of idx k = (case map_of idx k of None \<Rightarrow> {} | Some obj \<Rightarrow> set (links obj))"

definition gate_passed :: "text_cell \<Rightarrow> bool" where
  "gate_passed d = (\<exists>u t p. d = json_dumps (validate_ingestion u t p))"

definition scrubbed_writes :: "world \<Rightarrow> world \<Rightarrow> bool" where
  "scrubbed_writes w w' =
     (\<forall>r \<in> set (objects_tbl (storage w')). r \<in> set (objects_tbl (storage w)) \<or> gate_passed (fst (snd (snd r))))"

definition w_empty :: world where
  "w_empty = \<lparr>objects = [], storage = \<lparr>objects_tbl = [], links_tbl = []\<rparr>, io_faults = []\<rparr>"

definition obj_a1 :: GraphObject where
  "obj_a1 = \<lparr>uid = ''u'', otype = ''note'', properties = [(''a'', PInt 1)], links = [], created_at = ''t1''\<rparr>"

definition obj_b2 :: GraphObject where
  "obj_b2 = \<lparr>uid = ''u'', otype = ''note'', properties = [(''b'', PInt 2)], links = [], created_at = ''t2''\<rparr>"

definition strip_links :: "GraphObject \<Rightarrow> GraphObject" where
  "strip_links obj = obj\<lparr>links := []\<rparr>"

definition linked_index :: "string \<Rightarrow> string \<Rightarrow> string \<Rightarrow> bool \<Rightarrow> index \<Rightarrow> index" where
  "linked_index a b t bidir idx =
     (if bidir then add_link_at b a (''inverse_'' @ t) (add_link_at a b t idx) else add_link_at a b t idx)"

definition w_fault :: world where
  "w_fault = \<lparr>objects = [], storage = \<lparr>objects_tbl = [], links_tbl = []\<rparr>, io_faults = [True]\<rparr>"

definition obj_a :: GraphObject where
  "obj_a = \<lparr>uid = ''a'', otype = ''note'', properties = [], links = [], created_at = ''t0''\<rparr>"

definition obj_b :: GraphObject where
  "obj_b = \<lparr>uid = ''b'', otype = ''note'', properties = [], links = [], created_at = ''t0''\<rparr>"

definition w_two :: "bool list \<Rightarrow> world" where
  "w_two faults = \<lparr>objects = [(''a'', obj_a), (''b'', obj_b)],
                    storage = \<lparr>objects_tbl = [(''a'', ''note'', Dumped [], ''t0''), (''b'', ''note'', Dumped [], ''t0'')],
                               links_tbl = []\<rparr>,
                    io_faults = faults\<rparr>"

text \<open>
  \<open>settled k w\<close> says that no session of \<open>w\<close> will fail, that the index has one entry
  per key, that \<open>k\<close> is one of its keys, and that the objects relation holds exactly one
  row for \<open>k\<close>. \<open>cell\<close> is the data cell of a row, \<open>parses\<close> says that \<open>json.loads\<close>
  accepts it, \<open>row_object\<close> is the object that \<open>_load\<close> makes of a row, and
  \<open>place_rows\<close> stores the objects of a list of rows in an index, one after the other.
  \<open>targets rows k\<close> are the links that a links relation holds for the source \<open>k\<close>, and
  \<open>with_links\<close> adds them to an object.
\<close>

definition settled :: "string \<Rightarrow> world \<Rightarrow> bool" where
  "settled k w =
     (io_faults w = [] \<and> distinct (map fst (objects w)) \<and> k \<in> fst ` set (objects w)
      \<and> length (filter (\<lambda>r. fst r = k) (objects_tbl (storage w))) = 1)"

definition cell :: "object_row \<Rightarrow> text_cell" where
  "cell r = fst (snd (snd r))"

definition parses :: "object_row \<Rightarrow> bool" where
  "parses r = (case json_loads (cell r) of Inl _ \<Rightarrow> False | Inr _ \<Rightarrow> True)"

definition row_object :: "object_row \<Rightarrow> GraphObject" where
  "row_object r =
     \<lparr>uid = fst r, otype = fst (snd r),
      properties = (case json_loads (cell r) of Inl _ \<Rightarrow> [] | Inr p \<Rightarrow> p),
      links = [], created_at = snd (snd (snd r))\<rparr>"

definition place_rows :: "object_row list \<Rightarrow> index \<Rightarrow> index" where
  "place_rows rows idx = fold (\<lambda>r. AList.update (fst r) (row_object r)) rows idx"

definition targets :: "link_row list \<Rightarrow> string \<Rightarrow> (string \<times> string) list" where
  "targets rows k = map snd (filter (\<lambda>r. fst r = k) rows)"

definition with_links :: "link_row list \<Rightarrow> string \<Rightarrow> GraphObject \<Rightarrow> GraphObject" where
  "with_links rows k obj = obj\<lparr>links := fold set_add (targets rows k) (links obj)\<rparr>"

definition w_bad_row :: world where
  "w_bad_row = \<lparr>objects = [],
                 storage = \<lparr>objects_tbl = [(''g1'', ''note'', Dumped [], ''t1''), (''bad'', ''note'', Garbled ''{'', ''t2''),
                                            (''g2'', ''note'', Dumped [], ''t3'')],
                            links_tbl = []\<rparr>,
                 io_faults = []\<rparr>"

definition w_null_row :: world where
  "w_null_row = \<lparr>objects = [],
                  storage = \<lparr>objects_tbl = [(''n1'', ''note'', Null, ''t1''), (''g2'', ''note'', Dumped [], ''t3'')],
                             links_tbl = []\<rparr>,
                  io_faults = []\<rparr>"

definition w_stored :: world where
  "w_stored = \<lparr>objects = [],
                storage = \<lparr>objects_tbl = [(''g1'', ''note'', Dumped [(''a'', PInt 1)], ''t1''),
                                           (''g2'', ''note'', Dumped [], ''t3'')],
                           links_tbl = [(''g1'', ''g2'', ''sees''), (''g9'', ''g1'', ''sees'')]\<rparr>,
                io_faults = []\<rparr>"

text \<open>
  \<open>succs idx p\<close> are the link targets of \<open>p\<close> that are in the index.
  \<open>within_hops idx a n b\<close> says that a path of at most \<open>n\<close> links through objects of the
  index leads from \<open>a\<close> to \<open>b\<close>; \<open>at_dist\<close> says that \<open>n\<close> is the least such number,
  and \<open>nearer idx a x y\<close> that \<open>x\<close> is at most as far from \<open>a\<close> as \<open>y\<close> is. \<open>shape\<close>,
  \<open>labels\<close> and \<open>expanded\<close> are the parts of the invariant \<open>bfs_inv\<close> of the \<open>while\<close>
  loop of \<open>get_neighborhood\<close> (the cluster has one entry per uid, starts with the seed
  and is sorted by distance; the depths in the queue are true distances; every uid that
  has left the queue has all its targets in the cluster), and \<open>scan_inv\<close> is the
  invariant of the inner \<open>for\<close> loop. \<open>keyed\<close> says that every object of the index is
  stored under its own uid.
\<close>

definition succs :: "index \<Rightarrow> string \<Rightarrow> string list" where
  "succs idx p =
     (case map_of idx p of
        None \<Rightarrow> []
      | Some obj \<Rightarrow> filter (\<lambda>n. map_of idx n \<noteq> None) (map fst (links obj)))"

fun within_hops :: "index \<Rightarrow> string \<Rightarrow> nat \<Rightarrow> string \<Rightarrow> bool" where
  "within_hops idx a 0 b = (b = a)"
| "within_hops idx a (Suc n) b =
     (within_hops idx a n b \<or> list_ex (\<lambda>p. within_hops idx a n p \<and> b \<in> set (succs idx p)) (map fst idx))"

definition at_dist :: "index \<Rightarrow> string \<Rightarrow> nat \<Rightarrow> string \<Rightarrow> bool" where
  "at_dist idx a n b = (within_hops idx a n b \<and> (\<forall>m<n. \<not> within_hops idx a m b))"

definition nearer :: "index \<Rightarrow> string \<Rightarrow> string \<Rightarrow> string \<Rightarrow> bool" where
  "nearer idx a x y = (\<forall>n. within_hops idx a n y \<longrightarrow> within_hops idx a n x)"

definition shape :: "index \<Rightarrow> string \<Rightarrow> cluster \<Rightarrow> bool" where
  "shape idx seed C =
     (distinct (map fst C) \<and> (\<forall>e \<in> set C. map_of idx (fst e) = Some (snd e))
      \<and> (\<exists>rest. map fst C = seed # rest) \<and> sorted_wrt (nearer idx seed) (map fst C))"

definition labels :: "index \<Rightarrow> string \<Rightarrow> int \<Rightarrow> int \<Rightarrow> queue \<Rightarrow> bool" where
  "labels idx seed depth lo Q =
     (sorted (map snd Q)
      \<and> (\<forall>q \<in> set Q. lo \<le> snd q \<and> snd q \<le> lo + 1 \<and> (snd q = 0 \<or> snd q \<le> depth)
                        \<and> at_dist idx seed (nat (snd q)) (fst q)))"

definition expanded :: "index \<Rightarrow> string \<Rightarrow> int \<Rightarrow> cluster \<Rightarrow> string list \<Rightarrow> bool" where
  "expanded idx seed depth C P =
     (\<forall>p \<in> set P. \<exists>n. at_dist idx seed n p \<and> int n \<le> max depth 0
                       \<and> (int n < depth \<longrightarrow> set (succs idx p) \<subseteq> fst ` set C))"

definition bfs_inv :: "index \<Rightarrow> string \<Rightarrow> int \<Rightarrow> string list \<Rightarrow> cluster \<Rightarrow> queue \<Rightarrow> bool" where
  "bfs_inv idx seed depth P C Q =
     (map fst C = P @ map fst Q \<and> shape idx seed C \<and> expanded idx seed depth C P
      \<and> (case Q of [] \<Rightarrow> True | q # _ \<Rightarrow> 0 \<le> snd q \<and> labels idx seed depth (snd q) Q))"

definition scan_inv ::
  "index \<Rightarrow> string \<Rightarrow> int \<Rightarrow> string list \<Rightarrow> string \<Rightarrow> int \<Rightarrow> cluster \<Rightarrow> queue \<Rightarrow> bool" where
  "scan_inv idx seed depth P u d C Q =
     (map fst C = P @ u # map fst Q \<and> shape idx seed C \<and> expanded idx seed depth C P
      \<and> 0 \<le> d \<and> d < depth \<and> at_dist idx seed (nat d) u \<and> labels idx seed depth d Q
      \<and> (\<forall>v m. within_hops idx seed m v \<and> int m < d \<longrightarrow> v \<in> set P))"

definition keyed :: "index \<Rightarrow> bool" where
  "keyed idx = (\<forall>e \<in> set idx. uid (snd e) = fst e)"

definition node :: "string \<Rightarrow> string list \<Rightarrow> GraphObject" where
  "node k ts = \<lparr>uid = k, otype = ''note'', properties = [], links = map (\<lambda>t. (t, ''sees'')) ts,
                     created_at = ''t0''\<rparr>"

definition w_graph :: world where
  "w_graph = \<lparr>objects = [(''a'', node ''a'' [''b'', ''zz'']), (''b'', node ''b'' [''a'', ''c'']),
                          (''c'', node ''c'' [])],
               storage = \<lparr>objects_tbl = [], links_tbl = []\<rparr>, io_faults = []\<rparr>"

text \<open>
  Breadth-first discovery order as the specification describes it, level by level. The
  seed is discovered first and is level 0. \<open>visit\<close> discovers a link target if it is
  in the index and has not been discovered before (first discovery wins);
  \<open>expand_level\<close> takes the objects of the last level in the order of their discovery
  and visits the targets of each in the order of its link set, which gives the next
  level; \<open>levels\<close> expands that many levels, and \<open>discovery_order\<close> is the list of all
  uids discovered when \<open>depth\<close> levels have been expanded from the seed. \<open>entries\<close>
  looks the uids of a list up in the index, and \<open>labelled d\<close> makes queue entries of
  depth \<open>d\<close>; \<open>known\<close> says that every uid of a list is in the index.
\<close>

definition out_targets :: "index \<Rightarrow> string \<Rightarrow> string list" where
  "out_targets idx u = (case map_of idx u of None \<Rightarrow> [] | Some obj \<Rightarrow> map fst (links obj))"

definition visit :: "index \<Rightarrow> string \<Rightarrow> string list \<times> string list \<Rightarrow> string list \<times> string list" where
  "visit idx t sn =
     (if map_of idx t \<noteq> None \<and> t \<notin> set (fst sn) then (fst sn @ [t], snd sn @ [t]) else sn)"

definition expand_level :: "index \<Rightarrow> string list \<Rightarrow> string list \<Rightarrow> string list \<times> string list" where
  "expand_level idx seen level = fold (\<lambda>u. fold (visit idx) (out_targets idx u)) level (seen, [])"

fun levels :: "index \<Rightarrow> nat \<Rightarrow> string list \<Rightarrow> string list \<Rightarrow> string list" where
  "levels idx 0 seen level = seen"
| "levels idx (Suc n) seen level =
     levels idx n (fst (expand_level idx seen level)) (snd (expand_level idx seen level))"

definition discovery_order :: "index \<Rightarrow> string \<Rightarrow> int \<Rightarrow> string list" where
  "discovery_order idx seed depth = levels idx (nat depth) [seed] [seed]"

definition entries :: "index \<Rightarrow> string list \<Rightarrow> cluster" where
  "entries idx ks = concat (map (\<lambda>k. case map_of idx k of None \<Rightarrow> [] | Some obj \<Rightarrow> [(k, obj)]) ks)"

definition labelled :: "int \<Rightarrow> string list \<Rightarrow> queue" where
  "labelled d us = map (\<lambda>u. (u, d)) us"

definition known :: "index \<Rightarrow> string list \<Rightarrow> bool" where
  "known idx ks = (\<forall>k \<in> set ks. map_of idx k \<noteq> None)"

definition w_tree :: world where
  "w_tree = \<lparr>objects = [(''a'', node ''a'' [''b'', ''c'']), (''b'', node ''b'' [''z'']),
                         (''c'', node ''c'' [''y'', ''a'']), (''y'', node ''y'' []), (''z'', node ''z'' [])],
              storage = \<lparr>objects_tbl = [], links_tbl = []\<rparr>, io_faults = []\<rparr>"

text \<open>
  The remaining notions concern the detectors. \<open>lang pat u\<close> says that the pattern
  describes the text \<open>u\<close> as a whole, with \<open>\b\<close> left out of account: every match of
  \<open>pat\<close> is in \<open>lang pat\<close>, and a pattern without \<open>\b\<close> matches at the start of every
  text that begins with a text of \<open>lang pat\<close>. \<open>avoids b it\<close> says that the item cannot
  consume the character \<open>b\<close>, and \<open>consumes it\<close> that it consumes at least one character;
  a pattern is \<open>tame\<close> when it has a consuming item and no item of it can consume a
  square bracket. \<open>tails\<close> lists the suffixes of a text. \<open>foreign pat T\<close> says that no
  piece of \<open>T\<close> is in \<open>lang pat\<close>. \<open>all_placeholders\<close> are the placeholders of the
  five detectors. \<open>sub_from\<close> and \<open>hits_from\<close> are \<open>sub\<close> and \<open>findall\<close> started inside
  a text, behind the character \<open>prev\<close>. \<open>occurs_in m t\<close> says that \<open>m\<close> is a piece of
  \<open>t\<close>.
\<close>

fun lang :: "item list \<Rightarrow> string \<Rightarrow> bool" where
  "lang [] u = (u = [])"
| "lang (WordB # its) u = lang its u"
| "lang (Lit l # its) u = (ci_prefix l u \<and> lang its (drop (length l) u))"
| "lang (Alt ls # its) u = (\<exists>l \<in> set ls. ci_prefix l u \<and> lang its (drop (length l) u))"
| "lang (Rep c lo hi # its) u =
     (\<exists>k. lo \<le> k \<and> k \<le> length u \<and> (case hi of None \<Rightarrow> True | Some h \<Rightarrow> k \<le> h)
          \<and> (\<forall>x \<in> set (take k u). c x) \<and> lang its (drop k u))"

fun avoids :: "char \<Rightarrow> item \<Rightarrow> bool" where
  "avoids b (Rep c lo hi) = (\<not> c b)"
| "avoids b (Lit l) = (\<forall>p \<in> set l. fold_case p \<noteq> fold_case b)"
| "avoids b (Alt ls) = (\<forall>l \<in> set ls. \<forall>p \<in> set l. fold_case p \<noteq> fold_case b)"
| "avoids b WordB = True"

fun consumes :: "item \<Rightarrow> bool" where
  "consumes (Rep c lo hi) = (1 \<le> lo)"
| "consumes (Lit l) = (l \<noteq> [])"
| "consumes (Alt ls) = ([] \<notin> set ls)"
| "consumes WordB = False"

definition tame :: "item list \<Rightarrow> bool" where
  "tame pat = ((\<exists>it \<in> set pat. consumes it)
               \<and> (\<forall>it \<in> set pat. avoids CHR ''['' it \<and> avoids CHR '']'' it))"

fun tails :: "'a list \<Rightarrow> 'a list list" where
  "tails [] = [Nil]"
| "tails (x # xs) = (x # xs) # tails xs"

definition foreign :: "item list \<Rightarrow> string \<Rightarrow> bool" where
  "foreign pat P = (\<forall>a u b. P = a @ u @ b \<longrightarrow> \<not> lang pat u)"

definition all_placeholders :: "string list" where
  "all_placeholders = map (\<lambda>d. placeholder (fst d)) PATTERNS"

definition sub_from :: "item list \<Rightarrow> string \<Rightarrow> char option \<Rightarrow> string \<Rightarrow> string" where
  "sub_from pat repl prev s =
     concat (map (\<lambda>g. case g of Hit m \<Rightarrow> repl | Keep c \<Rightarrow> [c]) (scan pat prev s))"

definition hits_from :: "item list \<Rightarrow> char option \<Rightarrow> string \<Rightarrow> string list" where
  "hits_from pat prev s =
     concat (map (\<lambda>g. case g of Hit m \<Rightarrow> [m] | Keep c \<Rightarrow> []) (scan pat prev s))"


section \<open>Properties of the Graph Kernel\<close>

subsection \<open>Database sessions, \<open>upsert_object\<close> and \<open>link\<close>\<close>

lemma connect_fail [simp]: "io_faults w = True # rest \<Longrightarrow> connect w = (Inl OperationalError, w\<lparr>io_faults := rest\<rparr>)"
  by (simp add: connect_def)

lemma connect_pass [simp]: "io_faults w = False # rest \<Longrightarrow> connect w = (Inr (), w\<lparr>io_faults := rest\<rparr>)"
  by (simp add: connect_def)

lemma connect_quiet [simp]: "io_faults w = [] \<Longrightarrow> connect w = (Inr (), w)"
  by (simp add: connect_def)

lemma connect_frame [simp]:
  "objects (snd (connect w)) = objects w" "storage (snd (connect w)) = storage w"
  by (auto simp: connect_def split: list.splits)

lemma transaction_objects [simp]: "objects (snd (transaction f w)) = objects w"
  by (simp add: transaction_def split: sum.splits)

lemma transaction_storage:
  "storage (snd (transaction f w)) = (if fst (transaction f w) = Inr () then f (storage w) else storage w)"
  by (auto simp: transaction_def split: sum.splits)

lemma transaction_fst: "fst (transaction f w) = fst (connect w)"
  by (auto simp: transaction_def split: sum.splits)

lemma and_then_Inr: "fst r = Inr x \<Longrightarrow> and_then r f = f x (snd r)"
  by (simp add: and_then_def)

lemma and_then_Inl: "fst r = Inl e \<Longrightarrow> and_then r f = (Inl e, snd r)"
  by (simp add: and_then_def)

lemma upsert_object_alt:
  "upsert_object obj w =
     transaction (persist_object (scrubbed_obj obj))
       (w\<lparr>objects := AList.update (uid obj)
            (case map_of (objects w) (uid obj) of Some existing \<Rightarrow> merge_into existing (scrubbed_obj obj)
             | None \<Rightarrow> scrubbed_obj obj) (objects w)\<rparr>)"
  by (simp add: upsert_object_def scrubbed_obj_def Let_def split: option.splits)

lemma persist_object_tbl:
  "objects_tbl (persist_object obj db) =
     filter (\<lambda>r. fst r \<noteq> uid obj) (objects_tbl db) @ [(uid obj, otype obj, json_dumps (properties obj), created_at obj)]"
proof -
  have "objects_tbl (fold (\<lambda>l. insert_or_ignore_link (uid obj, fst l, snd l)) ls d) = objects_tbl d" for ls d
    by (induction ls arbitrary: d) (simp_all add: insert_or_ignore_link_def)
  then show ?thesis by (simp add: persist_object_def insert_or_replace_object_def)
qed

lemma connect_fst: "fst (connect w) = (if session_fails w then Inl OperationalError else Inr ())"
  by (simp add: connect_def session_fails_def split: list.splits)

lemma transaction_result: "fst (transaction f w) = (if session_fails w then Inl OperationalError else Inr ())"
  by (simp add: transaction_fst connect_fst)

lemma transaction_store: "storage (snd (transaction f w)) = (if session_fails w then storage w else f (storage w))"
  by (simp add: transaction_storage transaction_result)

lemma upsert_object_fst: "fst (upsert_object obj w) = (if session_fails w then Inl OperationalError else Inr ())"
  by (simp add: upsert_object_alt transaction_result session_fails_def)

lemma upsert_object_storage:
  "storage (snd (upsert_object obj w)) =
     (if session_fails w then storage w else persist_object (scrubbed_obj obj) (storage w))"
  by (simp add: upsert_object_alt transaction_store session_fails_def)

lemma upsert_object_objects:
  "objects (snd (upsert_object obj w)) =
     AList.update (uid obj)
       (case map_of (objects w) (uid obj) of Some existing \<Rightarrow> merge_into existing (scrubbed_obj obj)
        | None \<Rightarrow> scrubbed_obj obj) (objects w)"
  by (simp add: upsert_object_alt)

lemma scrubbed_writes_refl [simp]: "scrubbed_writes w w"
  by (simp add: scrubbed_writes_def)

lemma scrubbed_writes_trans: "scrubbed_writes w w1 \<Longrightarrow> scrubbed_writes w1 w2 \<Longrightarrow> scrubbed_writes w w2"
  unfolding scrubbed_writes_def by blast

lemma scrubbed_writes_same: "objects_tbl (storage w') = objects_tbl (storage w) \<Longrightarrow> scrubbed_writes w w'"
  by (simp add: scrubbed_writes_def)

lemma scrubbed_obj_sel [simp]:
  "uid (scrubbed_obj obj) = uid obj" "otype (scrubbed_obj obj) = otype obj"
  "links (scrubbed_obj obj) = links obj" "created_at (scrubbed_obj obj) = created_at obj"
  "properties (scrubbed_obj obj) = validate_ingestion (uid obj) (otype obj) (properties obj)"
  by (simp_all add: scrubbed_obj_def)

lemma upsert_object_tbl:
  "objects_tbl (storage (snd (upsert_object obj w))) =
     (if session_fails w then objects_tbl (storage w)
      else filter (\<lambda>r. fst r \<noteq> uid obj) (objects_tbl (storage w))
             @ [(uid obj, otype obj, json_dumps (validate_ingestion (uid obj) (otype obj) (properties obj)),
                 created_at obj)])"
  by (simp add: upsert_object_storage persist_object_tbl)

lemma scrubbed_writes_upsert: "scrubbed_writes w (snd (upsert_object obj w))"
  unfolding scrubbed_writes_def upsert_object_tbl gate_passed_def by auto

lemma persist_links_tbl [simp]: "objects_tbl (persist_links a b t bidir db) = objects_tbl db"
  by (simp add: persist_links_def insert_or_ignore_link_def Let_def)

lemma link_objects_tbl: "objects_tbl (storage (snd (link a b t bidir w))) = objects_tbl (storage w)"
  by (simp add: link_def Let_def transaction_store)

lemma scrubbed_writes_link: "scrubbed_writes w (snd (link a b t bidir w))"
  by (rule scrubbed_writes_same) (rule link_objects_tbl)

lemma scrubbed_writes_ensure_module: "scrubbed_writes w (snd (ensure_module m name now w))"
  by (simp add: ensure_module_def scrubbed_writes_upsert)

lemma scrubbed_writes_and_then:
  assumes "scrubbed_writes w (snd r)" and "\<And>x w1. scrubbed_writes w1 (snd (f x w1))"
  shows "scrubbed_writes w (snd (and_then r f))"
proof (cases "fst r")
  case (Inl e)
  then show ?thesis using assms(1) by (simp add: and_then_Inl)
next
  case (Inr x)
  then have "and_then r f = f x (snd r)" by (rule and_then_Inr)
  then show ?thesis using assms(1) assms(2) [of "snd r" x] scrubbed_writes_trans by metis
qed

lemma scrubbed_writes_return [simp]: "scrubbed_writes w (snd (Inr x, w))"
  by simp

lemma scrubbed_writes_link_focus: "scrubbed_writes w (snd (link_focus u props w))"
  by (auto simp: link_focus_def scrubbed_writes_link split: option.splits pyval.splits)

lemma scrubbed_writes_ingest_symbol:
  "scrubbed_writes w (snd (ingest_symbol rel_path name symbol_type props now1 now2 w))"
  unfolding ingest_symbol_def Let_def
  by (intro scrubbed_writes_and_then scrubbed_writes_upsert scrubbed_writes_ensure_module
        scrubbed_writes_link scrubbed_writes_return)

lemma scrubbed_writes_ingest_intent:
  "scrubbed_writes w (snd (ingest_intent str_of intent_id content props now1 now2 w))"
proof -
  have tail: "scrubbed_writes w2
        (snd (case map_of props ''file_path'' of
              None \<Rightarrow> (Inr (), w2)
            | Some file_path \<Rightarrow>
                and_then (ensure_module (''module:'' @ str_of file_path) file_path now2 w2) (\<lambda>_ w3.
                link u (''module:'' @ str_of file_path) ''described_in'' True w3)))" for w2 u
    by (cases "map_of props ''file_path''")
       (auto intro!: scrubbed_writes_and_then scrubbed_writes_ensure_module scrubbed_writes_link)
  show ?thesis
    unfolding ingest_intent_def Let_def
    by (intro scrubbed_writes_and_then scrubbed_writes_upsert scrubbed_writes_link_focus tail
          scrubbed_writes_return)
qed

lemma scrubbed_writes_ingest_finding:
  "scrubbed_writes w
     (snd (ingest_finding str_of rel_path finding_type severity message props timestamp now1 now2 w))"
proof -
  have tail: "scrubbed_writes w3
        (snd (case map_of props ''focus_symbol'' of
              None \<Rightarrow> (Inr (), w3)
            | Some focus \<Rightarrow>
                if map_of (objects w3) (''symbol:'' @ rel_path @ '':'' @ str_of focus) \<noteq> None
                then link u (''symbol:'' @ rel_path @ '':'' @ str_of focus) ''targets'' True w3
                else (Inr (), w3)))" for w3 u
    by (cases "map_of props ''focus_symbol''") (auto intro!: scrubbed_writes_link)
  show ?thesis
    unfolding ingest_finding_def Let_def
    by (intro scrubbed_writes_and_then scrubbed_writes_upsert scrubbed_writes_ensure_module
          scrubbed_writes_link tail scrubbed_writes_return)
qed

text \<open>
  Claim C2. On every write path the \<open>data\<close> column receives the output of
  \<open>validate_ingestion\<close>: the row that \<open>upsert_object\<close> writes carries
  \<open>json.dumps\<close> of \<open>validate_ingestion\<close> applied to the incoming properties (and a
  failed session writes nothing), and after \<open>ingest_symbol\<close>, \<open>ingest_intent\<close> or
  \<open>ingest_finding\<close> every row of the objects relation is a row that was there before or
  carries a property map that came out of \<open>validate_ingestion\<close>.
\<close>

theorem gate_on_every_write_path:
  "objects_tbl (storage (snd (upsert_object obj w))) =
     (if session_fails w then objects_tbl (storage w)
      else filter (\<lambda>r. fst r \<noteq> uid obj) (objects_tbl (storage w))
             @ [(uid obj, otype obj, json_dumps (validate_ingestion (uid obj) (otype obj) (properties obj)),
                 created_at obj)])
   \<and> scrubbed_writes w (snd (ingest_symbol rel_path name symbol_type props now1 now2 w))
   \<and> scrubbed_writes w (snd (ingest_intent str_of intent_id content props now1 now2 w))
   \<and> scrubbed_writes w
        (snd (ingest_finding str_of rel_path finding_type severity message props timestamp now1 now2 w))"
  by (intro conjI upsert_object_tbl scrubbed_writes_ingest_symbol scrubbed_writes_ingest_intent
        scrubbed_writes_ingest_finding)

lemmas kernel_eval =
  upsert_object_def transaction_def connect_def persist_object_def insert_or_replace_object_def
  insert_or_ignore_link_def merge_into_def dict_update_def set_update_def set_add_def
  validate_ingestion_def json_dumps_def Let_def link_def persist_links_def add_link_at_def add_link_def
  and_then_def ensure_module_def session_fails_def

lemma links_of_add_link_at:
  "links_of (add_link_at k n t idx) k' =
     (if k' = k \<and> map_of idx k \<noteq> None then insert (n, t) (links_of idx k') else links_of idx k')"
  by (auto simp: links_of_def add_link_at_def map_of_map_entry add_link_def set_add_def
      split: option.splits)

lemma map_of_add_link_at_None [simp]: "map_of (add_link_at k n t idx) k' = None \<longleftrightarrow> map_of idx k' = None"
  by (auto simp: add_link_at_def map_of_map_entry split: option.splits)

lemma strip_links_add_link_at:
  "map_option strip_links (map_of (add_link_at k n t idx) k') = map_option strip_links (map_of idx k')"
  by (auto simp: add_link_at_def map_of_map_entry add_link_def strip_links_def split: option.splits)

lemma keys_map_entry: "map fst (AList.map_entry k f xs) = map fst xs"
  by (induction xs) auto

lemma keys_add_link_at [simp]: "map fst (add_link_at k n t idx) = map fst idx"
  by (simp add: add_link_at_def keys_map_entry)

lemma link_present:
  "map_of (objects w) a \<noteq> None \<Longrightarrow> map_of (objects w) b \<noteq> None \<Longrightarrow>
     link a b t bidir w = transaction (persist_links a b t bidir) (w\<lparr>objects := linked_index a b t bidir (objects w)\<rparr>)"
  by (simp add: link_def linked_index_def Let_def)

lemma link_absent:
  "map_of (objects w) a = None \<or> map_of (objects w) b = None \<Longrightarrow> link a b t bidir w = (Inr (), w)"
  by (auto simp: link_def)

lemma links_of_linked_index:
  "map_of idx a \<noteq> None \<Longrightarrow> map_of idx b \<noteq> None \<Longrightarrow>
   links_of (linked_index a b t bidir idx) k =
     links_of idx k \<union> (if k = a then {(b, t)} else {}) \<union> (if bidir \<and> k = b then {(a, ''inverse_'' @ t)} else {})"
  by (auto simp: linked_index_def links_of_add_link_at)

lemma strip_links_linked_index:
  "map_option strip_links (map_of (linked_index a b t bidir idx) k) = map_option strip_links (map_of idx k)"
  by (simp add: linked_index_def strip_links_add_link_at)

lemma keys_linked_index [simp]: "map fst (linked_index a b t bidir idx) = map fst idx"
  by (simp add: linked_index_def)

lemma set_links_tbl_persist_links:
  "set (links_tbl (persist_links a b t bidir db)) =
     set (links_tbl db) \<union> {(a, b, t)} \<union> (if bidir then {(b, a, ''inverse_'' @ t)} else {})"
  by (auto simp: persist_links_def insert_or_ignore_link_def set_add_def Let_def)

lemma session_fails_upd [simp]: "session_fails (w\<lparr>objects := idx\<rparr>) = session_fails w"
  by (simp add: session_fails_def)

text \<open>
  Claim C10. \<open>link a b t bidirectional\<close>: when \<open>a\<close> or \<open>b\<close> is not in the index the
  call returns normally and leaves the index, the database and the pending sessions as
  they were. When both are there and the database session succeeds, the keys of the
  index stay, \<open>(b, t)\<close> joins the links of \<open>a\<close>, and \<open>(a, "inverse_" + t)\<close> joins the
  links of \<open>b\<close> when \<open>bidirectional\<close> holds; no other field of any object changes; the
  links relation gains exactly these edges and the objects relation stays.
\<close>

theorem link_contract:
  "(map_of (objects w) a = None \<or> map_of (objects w) b = None \<longrightarrow> link a b t bidir w = (Inr (), w))
   \<and> (map_of (objects w) a \<noteq> None \<and> map_of (objects w) b \<noteq> None \<and> \<not> session_fails w \<longrightarrow>
        fst (link a b t bidir w) = Inr ()
        \<and> map fst (objects (snd (link a b t bidir w))) = map fst (objects w)
        \<and> (\<forall>k. links_of (objects (snd (link a b t bidir w))) k =
                 links_of (objects w) k \<union> (if k = a then {(b, t)} else {})
                   \<union> (if bidir \<and> k = b then {(a, ''inverse_'' @ t)} else {}))
        \<and> (\<forall>k. map_option strip_links (map_of (objects (snd (link a b t bidir w))) k)
                 = map_option strip_links (map_of (objects w) k))
        \<and> set (links_tbl (storage (snd (link a b t bidir w)))) =
             set (links_tbl (storage w)) \<union> {(a, b, t)} \<union> (if bidir then {(b, a, ''inverse_'' @ t)} else {})
        \<and> objects_tbl (storage (snd (link a b t bidir w))) = objects_tbl (storage w))"
proof (intro conjI impI)
  assume "map_of (objects w) a = None \<or> map_of (objects w) b = None"
  then show "link a b t bidir w = (Inr (), w)" by (rule link_absent)
next
  assume h: "map_of (objects w) a \<noteq> None \<and> map_of (objects w) b \<noteq> None \<and> \<not> session_fails w"
  then have eq: "link a b t bidir w =
      transaction (persist_links a b t bidir) (w\<lparr>objects := linked_index a b t bidir (objects w)\<rparr>)"
    by (simp add: link_present)
  show "fst (link a b t bidir w) = Inr ()"
    using h by (simp add: eq transaction_result)
  show "map fst (objects (snd (link a b t bidir w))) = map fst (objects w)"
    by (simp add: eq)
  show "\<forall>k. links_of (objects (snd (link a b t bidir w))) k =
                 links_of (objects w) k \<union> (if k = a then {(b, t)} else {})
                   \<union> (if bidir \<and> k = b then {(a, ''inverse_'' @ t)} else {})"
    using h by (simp add: eq links_of_linked_index)
  show "\<forall>k. map_option strip_links (map_of (objects (snd (link a b t bidir w))) k)
                 = map_option strip_links (map_of (objects w) k)"
    by (simp add: eq strip_links_linked_index)
  show "set (links_tbl (storage (snd (link a b t bidir w)))) =
             set (links_tbl (storage w)) \<union> {(a, b, t)} \<union> (if bidir then {(b, a, ''inverse_'' @ t)} else {})"
    using h by (simp add: eq transaction_store set_links_tbl_persist_links)
  show "objects_tbl (storage (snd (link a b t bidir w))) = objects_tbl (storage w)"
    by (rule link_objects_tbl)
qed

text \<open>
  Claim C1, as amended. When the database session of \<open>upsert_object\<close> or \<open>link\<close> fails,
  the exception reaches the caller and the database is as before, but the index keeps
  the update that was made before the session: the object (merged into the existing one,
  or new) is in the index under its uid, and the new links are in the link sets.
\<close>

theorem failed_write_keeps_index_update:
  assumes "session_fails w"
  shows "fst (upsert_object obj w) = Inl OperationalError
         \<and> storage (snd (upsert_object obj w)) = storage w
         \<and> map_of (objects (snd (upsert_object obj w))) (uid obj) =
             Some (case map_of (objects w) (uid obj) of
                     Some existing \<Rightarrow> merge_into existing (scrubbed_obj obj)
                   | None \<Rightarrow> scrubbed_obj obj)
         \<and> (map_of (objects w) a \<noteq> None \<and> map_of (objects w) b \<noteq> None \<longrightarrow>
               fst (link a b t bidir w) = Inl OperationalError
               \<and> storage (snd (link a b t bidir w)) = storage w
               \<and> (b, t) \<in> links_of (objects (snd (link a b t bidir w))) a
               \<and> (bidir \<longrightarrow> (a, ''inverse_'' @ t) \<in> links_of (objects (snd (link a b t bidir w))) b))"
proof (intro conjI impI)
  show "fst (upsert_object obj w) = Inl OperationalError"
    using assms by (simp add: upsert_object_fst)
  show "storage (snd (upsert_object obj w)) = storage w"
    using assms by (simp add: upsert_object_storage)
  show "map_of (objects (snd (upsert_object obj w))) (uid obj) =
             Some (case map_of (objects w) (uid obj) of
                     Some existing \<Rightarrow> merge_into existing (scrubbed_obj obj)
                   | None \<Rightarrow> scrubbed_obj obj)"
    by (simp add: upsert_object_objects update_conv')
next
  assume h: "map_of (objects w) a \<noteq> None \<and> map_of (objects w) b \<noteq> None"
  then have eq: "link a b t bidir w =
      transaction (persist_links a b t bidir) (w\<lparr>objects := linked_index a b t bidir (objects w)\<rparr>)"
    by (simp add: link_present)
  show "fst (link a b t bidir w) = Inl OperationalError"
    using assms by (simp add: eq transaction_result)
  show "storage (snd (link a b t bidir w)) = storage w"
    using assms by (simp add: eq transaction_store)
  show "(b, t) \<in> links_of (objects (snd (link a b t bidir w))) a"
    using h by (simp add: eq links_of_linked_index)
  have "links_of (objects (snd (link a b t bidir w))) b =
          links_of (objects w) b \<union> (if b = a then {(b, t)} else {})
            \<union> (if bidir then {(a, ''inverse_'' @ t)} else {})"
    using h by (simp add: eq links_of_linked_index)
  then show "(a, ''inverse_'' @ t) \<in> links_of (objects (snd (link a b t bidir w))) b" if bidir
    using that by simp
qed

text \<open>
  Claim C1 as stated fails: with a failing session, \<open>upsert_object\<close> on an empty index
  and \<open>link\<close> between two objects both raise and leave the index changed.
\<close>

theorem failed_write_changes_index:
  "fst (upsert_object obj_a1 w_fault) = Inl OperationalError
   \<and> objects (snd (upsert_object obj_a1 w_fault)) \<noteq> objects w_fault
   \<and> fst (link ''a'' ''b'' ''t'' True (w_two [True])) = Inl OperationalError
   \<and> objects (snd (link ''a'' ''b'' ''t'' True (w_two [True]))) \<noteq> objects (w_two [True])"
  by (simp add: kernel_eval obj_a1_def w_fault_def w_two_def obj_a_def obj_b_def)

theorem failed_write_keeps_index_update_witness:
  "session_fails (w_two [True])
   \<and> map_of (objects (w_two [True])) ''a'' \<noteq> None \<and> map_of (objects (w_two [True])) ''b'' \<noteq> None
   \<and> fst (upsert_object obj_a1 (w_two [True])) = Inl OperationalError
   \<and> storage (snd (upsert_object obj_a1 (w_two [True]))) = storage (w_two [True])
   \<and> map_of (objects (snd (upsert_object obj_a1 (w_two [True])))) ''u'' = Some obj_a1
   \<and> fst (link ''a'' ''b'' ''t'' True (w_two [True])) = Inl OperationalError
   \<and> (''b'', ''t'') \<in> links_of (objects (snd (link ''a'' ''b'' ''t'' True (w_two [True])))) ''a''"
proof -
  have h1: "session_fails (w_two [True])"
    by (simp add: session_fails_def w_two_def)
  have h2: "map_of (objects (w_two [True])) ''a'' \<noteq> None \<and> map_of (objects (w_two [True])) ''b'' \<noteq> None"
    by (simp add: w_two_def)
  have h3: "map_of (objects (w_two [True])) (uid obj_a1) = None" "uid obj_a1 = ''u''"
    "scrubbed_obj obj_a1 = obj_a1"
    by (simp_all add: w_two_def obj_a1_def scrubbed_obj_def validate_ingestion_def)
  show ?thesis
    using failed_write_keeps_index_update [OF h1, of obj_a1 "''a''" "''b''" "''t''" True] h1 h2 h3
    by simp
qed

theorem gate_on_every_write_path_witness:
  "objects_tbl (storage (snd (upsert_object obj_a1 w_empty))) = [(''u'', ''note'', Dumped [(''a'', PInt 1)], ''t1'')]
   \<and> scrubbed_writes w_empty (snd (ingest_symbol ''a.py'' ''f'' ''function'' [] ''t1'' ''t2'' w_empty))
   \<and> scrubbed_writes w_empty (snd (ingest_intent (\<lambda>v. []) ''d1'' ''x'' [] ''t1'' ''t2'' w_empty))
   \<and> scrubbed_writes w_empty
        (snd (ingest_finding (\<lambda>v. []) ''a.py'' ''TODO'' ''low'' ''m'' [] ''1.5'' ''t1'' ''t2'' w_empty))"
  using gate_on_every_write_path [where obj = obj_a1 and w = w_empty and rel_path = "''a.py''"
      and name = "''f''" and symbol_type = "''function''" and props = "[]" and ?now1.0 = "''t1''"
      and ?now2.0 = "''t2''" and str_of = "\<lambda>v. []" and intent_id = "''d1''" and content = "''x''"
      and finding_type = "''TODO''" and severity = "''low''" and message = "''m''"
      and timestamp = "''1.5''"]
  by (simp add: session_fails_def w_empty_def obj_a1_def validate_ingestion_def json_dumps_def)

theorem link_contract_witness:
  "map_of (objects (w_two [])) ''a'' \<noteq> None \<and> map_of (objects (w_two [])) ''b'' \<noteq> None
   \<and> \<not> session_fails (w_two [])
   \<and> map_of (objects (w_two [])) ''c'' = None
   \<and> link ''a'' ''c'' ''t'' True (w_two []) = (Inr (), w_two [])
   \<and> fst (link ''a'' ''b'' ''t'' True (w_two [])) = Inr ()
   \<and> links_of (objects (snd (link ''a'' ''b'' ''t'' True (w_two [])))) ''b'' = {(''a'', ''inverse_t'')}
   \<and> set (links_tbl (storage (snd (link ''a'' ''b'' ''t'' True (w_two []))))) =
        {(''a'', ''b'', ''t''), (''b'', ''a'', ''inverse_t'')}"
proof -
  have h: "map_of (objects (w_two [])) ''a'' \<noteq> None" "map_of (objects (w_two [])) ''b'' \<noteq> None"
    "\<not> session_fails (w_two [])" "map_of (objects (w_two [])) ''c'' = None"
    "links_of (objects (w_two [])) ''b'' = {}" "links_tbl (storage (w_two [])) = []"
    by (simp_all add: w_two_def session_fails_def links_of_def obj_b_def)
  show ?thesis
    using link_contract [of "w_two []" "''a''" "''b''" "''t''" True]
      link_contract [of "w_two []" "''a''" "''c''" "''t''" True] h
    by auto
qed

subsection \<open>Re-ingestion, and what \<open>upsert_object\<close> persists for an existing uid\<close>

lemma session_fails_quiet [simp]: "io_faults w = [] \<Longrightarrow> \<not> session_fails w"
  by (simp add: session_fails_def)

lemma transaction_quiet: "io_faults w = [] \<Longrightarrow> transaction f w = (Inr (), w\<lparr>storage := f (storage w)\<rparr>)"
  by (simp add: transaction_def)

lemma upsert_object_quiet:
  "io_faults w = [] \<Longrightarrow>
   upsert_object obj w =
     (Inr (), w\<lparr>objects := AList.update (uid obj)
                   (case map_of (objects w) (uid obj) of Some existing \<Rightarrow> merge_into existing (scrubbed_obj obj)
                    | None \<Rightarrow> scrubbed_obj obj) (objects w),
                storage := persist_object (scrubbed_obj obj) (storage w)\<rparr>)"
  by (simp add: upsert_object_alt transaction_quiet)

lemma link_quiet:
  "io_faults w = [] \<Longrightarrow> fst (link a b t bidir w) = Inr () \<and> io_faults (snd (link a b t bidir w)) = []
     \<and> map fst (objects (snd (link a b t bidir w))) = map fst (objects w)
     \<and> objects_tbl (storage (snd (link a b t bidir w))) = objects_tbl (storage w)"
  by (cases "map_of (objects w) a \<noteq> None \<and> map_of (objects w) b \<noteq> None")
     (auto simp: link_present link_absent transaction_quiet)

lemma count_one:
  "distinct (map fst xs) \<Longrightarrow> k \<in> fst ` set xs \<Longrightarrow> length (filter (\<lambda>e. fst e = k) xs) = 1"
proof (induction xs)
  case Nil
  then show ?case by simp
next
  case (Cons x xs)
  show ?case
  proof (cases "fst x = k")
    case True
    with Cons.prems have "k \<notin> fst ` set xs" by auto
    then have "filter (\<lambda>e. fst e = k) xs = []" by (auto simp: filter_empty_conv)
    with True show ?thesis by simp
  next
    case False
    with Cons show ?thesis by auto
  qed
qed

lemma keys_update: "fst ` set (AList.update k v al) = insert k (fst ` set al)"
  by (induction al) auto

lemma settled_upsert_same:
  assumes "io_faults w = []" "distinct (map fst (objects w))" "uid obj = k"
  shows "settled k (snd (upsert_object obj w))"
proof -
  have "length (filter (\<lambda>r. fst r = k) (filter (\<lambda>r. fst r \<noteq> k) rows)) = 0" for rows :: "object_row list"
    by (induction rows) auto
  then show ?thesis
    using assms
    by (simp add: settled_def upsert_object_quiet distinct_update keys_update persist_object_tbl)
qed

lemma settled_upsert_other:
  assumes "settled k w" "uid obj \<noteq> k"
  shows "settled k (snd (upsert_object obj w))"
proof -
  have "filter (\<lambda>r. fst r = k) (filter (\<lambda>r. fst r \<noteq> uid obj) rows) = filter (\<lambda>r. fst r = k) rows"
    for rows :: "object_row list"
    using assms(2) by (induction rows) auto
  then show ?thesis
    using assms
    by (auto simp: settled_def upsert_object_quiet distinct_update keys_update persist_object_tbl)
qed

lemma settled_link:
  assumes "settled k w"
  shows "settled k (snd (link a b t bidir w))"
proof -
  have q: "io_faults w = []" using assms by (simp add: settled_def)
  have "set (map fst (objects (snd (link a b t bidir w)))) = set (map fst (objects w))"
    using link_quiet [OF q, of a b t bidir] by simp
  then have "fst ` set (objects (snd (link a b t bidir w))) = fst ` set (objects w)"
    by simp
  then show ?thesis
    using assms link_quiet [OF q, of a b t bidir] by (simp add: settled_def)
qed

lemma settled_ensure_module: "settled k w \<Longrightarrow> m \<noteq> k \<Longrightarrow> settled k (snd (ensure_module m name now w))"
  by (simp add: ensure_module_def settled_upsert_other)

lemma ensure_module_fst: "io_faults w = [] \<Longrightarrow> fst (ensure_module m name now w) = Inr ()"
  by (simp add: ensure_module_def upsert_object_fst)

lemma symbol_not_module [simp]: "''module:'' @ p \<noteq> ''symbol:'' @ q"
  by simp

lemma ingest_symbol_settled:
  assumes "io_faults w = []" "distinct (map fst (objects w))"
  shows "fst (ingest_symbol rel_path name symbol_type props now1 now2 w) = Inr (''symbol:'' @ rel_path @ '':'' @ name)
         \<and> settled (''symbol:'' @ rel_path @ '':'' @ name)
              (snd (ingest_symbol rel_path name symbol_type props now1 now2 w))"
proof -
  let ?k = "''symbol:'' @ rel_path @ '':'' @ name"
  let ?obj = "\<lparr>uid = ?k, otype = ''symbol'',
                 properties = dict_update [(''name'', PStr name), (''file_path'', PStr rel_path),
                                           (''symbol_type'', PStr symbol_type)] props,
                 links = [], created_at = now1\<rparr>"
  let ?m = "''module:'' @ rel_path"
  let ?r1 = "upsert_object ?obj w"
  let ?r2 = "ensure_module ?m (PStr rel_path) now2 (snd ?r1)"
  let ?r3 = "link ?m ?k ''defines'' True (snd ?r2)"
  have s1: "settled ?k (snd ?r1)" using assms by (intro settled_upsert_same) simp_all
  have f1: "fst ?r1 = Inr ()" using assms by (simp add: upsert_object_fst)
  have s2: "settled ?k (snd ?r2)" using s1 by (intro settled_ensure_module) simp_all
  have f2: "fst ?r2 = Inr ()" using s1 by (simp add: ensure_module_fst settled_def)
  have s3: "settled ?k (snd ?r3)" using s2 by (rule settled_link)
  have f3: "fst ?r3 = Inr ()" using s2 link_quiet by (simp add: settled_def)
  have "ingest_symbol rel_path name symbol_type props now1 now2 w = (Inr ?k, snd ?r3)"
    by (simp only: ingest_symbol_def Let_def and_then_Inr [OF f1] and_then_Inr [OF f2]
          and_then_Inr [OF f3])
  with s3 show ?thesis by simp
qed

text \<open>
  Claim C9. On a kernel whose database sessions succeed, \<open>ingest_symbol\<close> called twice
  with the same path, name, kind and properties returns \<open>symbol:<path>:<name>\<close> both
  times, and afterwards the index has exactly one entry under that uid and the objects
  relation has exactly one row with that uid. (The index is a dictionary: its keys are
  distinct to begin with.)
\<close>

theorem ingest_symbol_twice:
  assumes "io_faults w = []" and "distinct (map fst (objects w))"
  shows "fst (ingest_symbol rel_path name symbol_type props now1 now2 w)
           = Inr (''symbol:'' @ rel_path @ '':'' @ name)
       \<and> fst (ingest_symbol rel_path name symbol_type props now3 now4
                (snd (ingest_symbol rel_path name symbol_type props now1 now2 w)))
           = Inr (''symbol:'' @ rel_path @ '':'' @ name)
       \<and> length (filter (\<lambda>e. fst e = ''symbol:'' @ rel_path @ '':'' @ name)
            (objects (snd (ingest_symbol rel_path name symbol_type props now3 now4
                       (snd (ingest_symbol rel_path name symbol_type props now1 now2 w)))))) = 1
       \<and> length (filter (\<lambda>r. fst r = ''symbol:'' @ rel_path @ '':'' @ name)
            (objects_tbl (storage (snd (ingest_symbol rel_path name symbol_type props now3 now4
                       (snd (ingest_symbol rel_path name symbol_type props now1 now2 w))))))) = 1"
proof -
  let ?w1 = "snd (ingest_symbol rel_path name symbol_type props now1 now2 w)"
  have first: "fst (ingest_symbol rel_path name symbol_type props now1 now2 w)
                 = Inr (''symbol:'' @ rel_path @ '':'' @ name)"
    and s1: "settled (''symbol:'' @ rel_path @ '':'' @ name) ?w1"
    using ingest_symbol_settled [OF assms] by simp_all
  have q1: "io_faults ?w1 = []" and d1: "distinct (map fst (objects ?w1))"
    using s1 by (simp_all add: settled_def)
  have second: "fst (ingest_symbol rel_path name symbol_type props now3 now4 ?w1)
                  = Inr (''symbol:'' @ rel_path @ '':'' @ name)"
    and s2: "settled (''symbol:'' @ rel_path @ '':'' @ name)
               (snd (ingest_symbol rel_path name symbol_type props now3 now4 ?w1))"
    using ingest_symbol_settled [OF q1 d1] by simp_all
  show ?thesis
    using first second s2 by (simp add: settled_def count_one)
qed

theorem ingest_symbol_twice_witness:
  "io_faults w_empty = [] \<and> distinct (map fst (objects w_empty))
   \<and> fst (ingest_symbol ''a.py'' ''f'' ''function'' [] ''t3'' ''t4''
            (snd (ingest_symbol ''a.py'' ''f'' ''function'' [] ''t1'' ''t2'' w_empty))) = Inr ''symbol:a.py:f''
   \<and> length (filter (\<lambda>r. fst r = ''symbol:a.py:f'')
        (objects_tbl (storage (snd (ingest_symbol ''a.py'' ''f'' ''function'' [] ''t3'' ''t4''
            (snd (ingest_symbol ''a.py'' ''f'' ''function'' [] ''t1'' ''t2'' w_empty))))))) = 1"
proof -
  have h: "io_faults w_empty = []" "distinct (map fst (objects w_empty))"
    by (simp_all add: w_empty_def)
  show ?thesis
    using ingest_symbol_twice [OF h, of "''a.py''" "''f''" "''function''" "[]" "''t1''" "''t2''" "''t3''" "''t4''"] h
    by simp
qed

text \<open>
  Claim C3 fails on the code. An object \<open>u\<close> with properties \<open>{a: 1}\<close> is stored, then
  \<open>upsert_object\<close> is called for \<open>u\<close> with \<open>{b: 2}\<close>: the index holds the merged map
  \<open>{a: 1, b: 2}\<close>, but the row written for \<open>u\<close> holds \<open>{b: 2}\<close> only, because the
  \<open>INSERT OR REPLACE\<close> takes the incoming object, not the merged one.
\<close>

theorem upsert_existing_persists_unmerged:
  "map_of (objects (snd (upsert_object obj_b2 (snd (upsert_object obj_a1 w_empty))))) ''u''
     = Some \<lparr>uid = ''u'', otype = ''note'', properties = [(''a'', PInt 1), (''b'', PInt 2)],
              links = [], created_at = ''t1''\<rparr>
   \<and> objects_tbl (storage (snd (upsert_object obj_b2 (snd (upsert_object obj_a1 w_empty)))))
     = [(''u'', ''note'', json_dumps [(''b'', PInt 2)], ''t2'')]"
  by (simp add: kernel_eval obj_a1_def obj_b2_def w_empty_def)

text \<open>
  Claim C7 fails on the code, through the same statement. After the second
  \<open>upsert_object\<close> on \<open>u\<close> the index still has the first \<open>created_at\<close> (\<open>t1\<close>), but
  the row of \<open>u\<close> has that of the incoming object (\<open>t2\<close>), and a kernel built again
  from the database reads \<open>t2\<close>.
\<close>

theorem upsert_existing_overwrites_durable_created_at:
  "map_option created_at
     (map_of (objects (snd (upsert_object obj_b2 (snd (upsert_object obj_a1 w_empty))))) ''u'') = Some ''t1''
   \<and> map (\<lambda>r. (fst r, snd (snd (snd r))))
       (objects_tbl (storage (snd (upsert_object obj_b2 (snd (upsert_object obj_a1 w_empty))))))
     = [(''u'', ''t2'')]
   \<and> map_option created_at
       (map_of (objects (snd (new_kernel
          (storage (snd (upsert_object obj_b2 (snd (upsert_object obj_a1 w_empty))))) []))) ''u'') = Some ''t2''"
  by (simp add: kernel_eval obj_a1_def obj_b2_def w_empty_def new_kernel_def init_db_def load_def
      load_links_def)

text \<open>
  The part of C7 that holds: in the index, \<open>upsert_object\<close> on an existing uid keeps
  \<open>created_at\<close>.
\<close>

lemma upsert_keeps_created_at_in_index:
  "map_of (objects w) (uid obj) = Some existing \<Longrightarrow>
   map_option created_at (map_of (objects (snd (upsert_object obj w))) (uid obj)) = Some (created_at existing)"
  by (simp add: upsert_object_objects update_conv' merge_into_def)

subsection \<open>Loading the durable store\<close>

lemma load_objects_stops:
  "\<forall>r \<in> set good. parses r \<Longrightarrow> json_loads (cell bad) = Inl e \<Longrightarrow>
   load_objects (good @ bad # rest) idx = (Inl e, place_rows good idx)"
proof (induction good arbitrary: idx)
  case Nil
  obtain u t d c where "bad = (u, t, d, c)" by (cases bad) auto
  with Nil show ?case by (simp add: cell_def place_rows_def)
next
  case (Cons r good)
  obtain u t d c where r: "r = (u, t, d, c)" by (cases r) auto
  from Cons.prems have "parses r" by simp
  then obtain p where d: "json_loads d = Inr p"
    by (cases "json_loads d") (simp_all add: parses_def cell_def r)
  have "load_objects ((r # good) @ bad # rest) idx
          = load_objects (good @ bad # rest) (AList.update (fst r) (row_object r) idx)"
    by (simp add: r d row_object_def cell_def)
  also have "\<dots> = (Inl e, place_rows good (AList.update (fst r) (row_object r) idx))"
    using Cons by simp
  finally show ?case by (simp add: place_rows_def)
qed

lemma first_unparsable:
  assumes "\<exists>r \<in> set rows. \<not> parses r"
  shows "\<exists>good bad rest. rows = good @ bad # rest \<and> (\<forall>r \<in> set good. parses r) \<and> \<not> parses bad"
  using split_list_first_prop [OF assms] by blast

lemma unparsable_error:
  "\<not> parses r \<Longrightarrow> \<exists>e. json_loads (cell r) = Inl e \<and> (e = JSONDecodeError \<or> e = TypeError)"
  by (cases "cell r") (simp_all add: parses_def)

lemma load_objects_ok:
  "\<forall>r \<in> set rows. parses r \<Longrightarrow> load_objects rows idx = (Inr (), place_rows rows idx)"
proof (induction rows arbitrary: idx)
  case Nil
  then show ?case by (simp add: place_rows_def)
next
  case (Cons r rows)
  obtain u t d c where r: "r = (u, t, d, c)" by (cases r) auto
  from Cons.prems have "parses r" by simp
  then obtain p where d: "d = Dumped p"
    by (cases d) (simp_all add: parses_def cell_def r)
  have "load_objects (r # rows) idx = load_objects rows (AList.update (fst r) (row_object r) idx)"
    by (simp add: r d row_object_def cell_def)
  also have "\<dots> = (Inr (), place_rows rows (AList.update (fst r) (row_object r) idx))"
    using Cons by simp
  finally show ?case by (simp add: place_rows_def)
qed

lemma keys_place_rows_known:
  "\<forall>r \<in> set rows. fst r \<in> fst ` set idx \<Longrightarrow> map fst (place_rows rows idx) = map fst idx"
proof (induction rows arbitrary: idx)
  case Nil
  then show ?case by (simp add: place_rows_def)
next
  case (Cons r rows)
  have k: "map fst (AList.update (fst r) (row_object r) idx) = map fst idx"
    using Cons.prems by (simp add: update_keys)
  then have "fst ` set (AList.update (fst r) (row_object r) idx) = fst ` set idx"
    by (metis list.set_map)
  with Cons.prems have "\<forall>r' \<in> set rows. fst r' \<in> fst ` set (AList.update (fst r) (row_object r) idx)"
    by simp
  from Cons.IH [OF this] k show ?case by (simp add: place_rows_def)
qed

lemma keys_place_rows_grow: "fst ` set (place_rows rows idx) = fst ` set idx \<union> fst ` set rows"
  by (induction rows arbitrary: idx) (auto simp: place_rows_def keys_update)

lemma distinct_place_rows: "distinct (map fst idx) \<Longrightarrow> distinct (map fst (place_rows rows idx))"
  by (induction rows arbitrary: idx) (auto simp: place_rows_def distinct_update)

lemma map_of_place_rows:
  "map_of (place_rows rows idx) k =
     (case map_of (rev (map (\<lambda>r. (fst r, row_object r)) rows)) k of
        Some obj \<Rightarrow> Some obj | None \<Rightarrow> map_of idx k)"
proof (induction rows arbitrary: idx)
  case Nil
  show ?case by (simp add: place_rows_def)
next
  case (Cons r rows)
  have "map_of (place_rows (r # rows) idx) k = map_of (place_rows rows (AList.update (fst r) (row_object r) idx)) k"
    by (simp add: place_rows_def)
  also have "\<dots> = (case map_of (rev (map (\<lambda>r. (fst r, row_object r)) rows)) k of
        Some obj \<Rightarrow> Some obj | None \<Rightarrow> map_of (AList.update (fst r) (row_object r) idx) k)"
    by (rule Cons.IH)
  finally show ?case
    by (auto simp: update_conv' map_add_def split: option.splits)
qed

lemma load_links_step_keys:
  "map fst (fold (\<lambda>row idx'. case row of (source, target, link_type) \<Rightarrow>
             if map_of idx' source \<noteq> None then add_link_at source target link_type idx' else idx') rows idx)
     = map fst idx"
  by (induction rows arbitrary: idx) (auto split: prod.splits)

lemma keys_load_links [simp]: "map fst (load_links rows idx) = map fst idx"
  unfolding load_links_def by (rule load_links_step_keys)

lemma keyset_load_links: "fst ` set (load_links rows idx) = fst ` set idx"
  by (metis keys_load_links list.set_map)

lemma map_of_add_link_at:
  "map_of (add_link_at s n t idx) k =
     (if k = s then map_option (add_link n t) (map_of idx k) else map_of idx k)"
  by (auto simp: add_link_at_def map_of_map_entry split: option.splits)

lemma map_of_load_links:
  "map_of (load_links rows idx) k = map_option (with_links rows k) (map_of idx k)"
proof (induction rows arbitrary: idx)
  case Nil
  show ?case by (simp add: load_links_def with_links_def targets_def option.map_ident)
next
  case (Cons r rows)
  obtain s n t where r: "r = (s, n, t)" by (cases r) auto
  let ?idx1 = "if map_of idx s \<noteq> None then add_link_at s n t idx else idx"
  have step: "load_links (r # rows) idx = load_links rows ?idx1"
    by (simp add: load_links_def r)
  have one: "map_of ?idx1 k = (if k = s then map_option (add_link n t) (map_of idx k) else map_of idx k)"
    by (auto simp: map_of_add_link_at)
  have "map_of (load_links (r # rows) idx) k = map_option (with_links rows k) (map_of ?idx1 k)"
    unfolding step by (rule Cons.IH)
  also have "\<dots> = map_option (with_links (r # rows) k) (map_of idx k)"
    unfolding one
    by (cases "map_of idx k")
       (auto simp: with_links_def targets_def add_link_def r)
  finally show ?case .
qed

lemma fold_set_add_absorb: "set xs \<subseteq> set ls \<Longrightarrow> fold set_add xs ls = ls"
  by (induction xs arbitrary: ls) (auto simp: set_add_def)

lemma set_fold_set_add: "set (fold set_add xs ls) = set ls \<union> set xs"
  by (induction xs arbitrary: ls) (auto simp: set_add_def)

lemma with_links_twice: "with_links rows k (with_links rows k obj) = with_links rows k obj"
  by (simp add: with_links_def fold_set_add_absorb set_fold_set_add)

lemma alist_eqI:
  "map fst xs = map fst ys \<Longrightarrow> distinct (map fst xs) \<Longrightarrow> (\<And>k. map_of xs k = map_of ys k) \<Longrightarrow> xs = ys"
proof (induction xs arbitrary: ys)
  case Nil
  then show ?case by simp
next
  case (Cons x xs)
  then obtain y ys' where ys: "ys = y # ys'" by (cases ys) auto
  with Cons.prems have fx: "fst x = fst y" and keys: "map fst xs = map fst ys'" by simp_all
  from Cons.prems(3) [of "fst x"] have "snd x = snd y" by (simp add: ys fx)
  with fx have xy: "x = y" by (simp add: prod_eq_iff)
  have "map_of xs k = map_of ys' k" for k
  proof (cases "k = fst x")
    case True
    with Cons.prems(2) have "map_of xs k = None" by (simp add: map_of_eq_None_iff)
    moreover from True Cons.prems(2) keys have "map_of ys' k = None"
      by (metis distinct.simps(2) list.simps(9) list.set_map map_of_eq_None_iff)
    ultimately show ?thesis by simp
  next
    case False
    with Cons.prems(3) [of k] show ?thesis by (simp add: ys fx [symmetric])
  qed
  with Cons.IH [OF keys] Cons.prems(2) have "xs = ys'" by simp
  with xy ys show ?case by simp
qed

lemma reload_index:
  assumes "distinct (map fst idx)"
  shows "load_links ls (place_rows rows (load_links ls (place_rows rows idx)))
           = load_links ls (place_rows rows idx)"
proof (rule alist_eqI)
  let ?i1 = "load_links ls (place_rows rows idx)"
  have known: "\<forall>r \<in> set rows. fst r \<in> fst ` set ?i1"
    by (simp add: keyset_load_links keys_place_rows_grow)
  show "map fst (load_links ls (place_rows rows ?i1)) = map fst ?i1"
    using keys_place_rows_known [OF known] by simp
  show "distinct (map fst (load_links ls (place_rows rows ?i1)))"
    using keys_place_rows_known [OF known] distinct_place_rows [OF assms] by simp
  show "map_of (load_links ls (place_rows rows ?i1)) k = map_of ?i1 k" for k
    by (cases "map_of (rev (map (\<lambda>r. (fst r, row_object r)) rows)) k"; cases "map_of idx k")
       (simp_all add: map_of_load_links map_of_place_rows with_links_twice)
qed

lemma load_quiet_ok:
  assumes "io_faults w = []" and "\<forall>r \<in> set (objects_tbl (storage w)). parses r"
  shows "load True w =
           (Inr (), w\<lparr>objects := load_links (links_tbl (storage w))
                                    (place_rows (objects_tbl (storage w)) (objects w))\<rparr>)"
  using assms by (simp add: load_def and_then_def load_objects_ok)

lemma load_quiet_stops:
  assumes "io_faults w = []" and "objects_tbl (storage w) = good @ bad # rest"
    and "\<forall>r \<in> set good. parses r" and "json_loads (cell bad) = Inl e"
  shows "load True w = (Inl e, w\<lparr>objects := place_rows good (objects w)\<rparr>)"
  using assms load_objects_stops [of good bad e rest "objects w"]
  by (simp add: load_def and_then_def)

lemma new_kernel_stops:
  assumes "objects_tbl db = good @ bad # rest"
    and "\<forall>r \<in> set good. parses r" and "json_loads (cell bad) = Inl e"
  shows "new_kernel db [] = (Inl e, \<lparr>objects = place_rows good [], storage = db, io_faults = []\<rparr>)"
proof -
  let ?w = "\<lparr>objects = [], storage = db, io_faults = []\<rparr>"
  have "init_db ?w = (Inr (), ?w)"
    by (simp add: init_db_def transaction_def connect_def)
  moreover have "load True ?w = (Inl e, ?w\<lparr>objects := place_rows good (objects ?w)\<rparr>)"
    using assms by (intro load_quiet_stops) simp_all
  ultimately show ?thesis by (simp add: new_kernel_def and_then_def)
qed

text \<open>
  Claim C4, as amended. Let the database session succeed. If some stored record has a
  property blob at which \<open>json.loads\<close> raises, \<open>_load\<close> raises and so does the constructor
  of the kernel: there is no handler, and no record is skipped. More precisely, when
  \<open>bad\<close> is the first such record, with the records \<open>good\<close> before it and the records
  \<open>rest\<close> after it, \<open>_load\<close> ends with the exception of \<open>json.loads\<close> and leaves in the
  index what the records of \<open>good\<close> put there: neither a record of \<open>rest\<close> nor any link
  is loaded. If every stored blob parses, \<open>_load\<close> returns normally, and running it
  again on its result changes nothing.
\<close>

theorem load_aborts_or_is_idempotent:
  assumes "io_faults w = []"
  shows "((\<exists>r \<in> set (objects_tbl (storage w)). \<not> parses r) \<longrightarrow>
            (\<exists>e. (e = JSONDecodeError \<or> e = TypeError) \<and> fst (load True w) = Inl e
                  \<and> fst (new_kernel (storage w) []) = Inl e))
       \<and> (\<forall>good bad rest e.
            objects_tbl (storage w) = good @ bad # rest \<and> (\<forall>r \<in> set good. parses r)
            \<and> json_loads (cell bad) = Inl e \<longrightarrow>
              load True w = (Inl e, w\<lparr>objects := place_rows good (objects w)\<rparr>)
              \<and> new_kernel (storage w) []
                  = (Inl e, \<lparr>objects = place_rows good [], storage = storage w, io_faults = []\<rparr>))
       \<and> ((\<forall>r \<in> set (objects_tbl (storage w)). parses r) \<and> distinct (map fst (objects w)) \<longrightarrow>
            fst (load True w) = Inr () \<and> load True (snd (load True w)) = load True w)"
proof (intro conjI allI impI)
  assume "\<exists>r \<in> set (objects_tbl (storage w)). \<not> parses r"
  from first_unparsable [OF this] obtain good bad rest
    where rows: "objects_tbl (storage w) = good @ bad # rest"
      and good: "\<forall>r \<in> set good. parses r" and bad: "\<not> parses bad"
    by blast
  from unparsable_error [OF bad] obtain e
    where e: "json_loads (cell bad) = Inl e" "e = JSONDecodeError \<or> e = TypeError"
    by blast
  from load_quiet_stops [OF assms rows good e(1)] have "fst (load True w) = Inl e" by simp
  moreover from new_kernel_stops [OF rows good e(1)]
  have "fst (new_kernel (storage w) []) = Inl e" by simp
  ultimately show "\<exists>e. (e = JSONDecodeError \<or> e = TypeError) \<and> fst (load True w) = Inl e
                  \<and> fst (new_kernel (storage w) []) = Inl e"
    using e(2) by blast
next
  fix good bad rest e
  assume h: "objects_tbl (storage w) = good @ bad # rest \<and> (\<forall>r \<in> set good. parses r)
              \<and> json_loads (cell bad) = Inl e"
  then have rows: "objects_tbl (storage w) = good @ bad # rest"
    and good: "\<forall>r \<in> set good. parses r" and e: "json_loads (cell bad) = Inl e"
    by simp_all
  show "load True w = (Inl e, w\<lparr>objects := place_rows good (objects w)\<rparr>)"
    using assms rows good e by (rule load_quiet_stops)
  show "new_kernel (storage w) []
          = (Inl e, \<lparr>objects = place_rows good [], storage = storage w, io_faults = []\<rparr>)"
    using rows good e by (rule new_kernel_stops)
next
  assume h: "(\<forall>r \<in> set (objects_tbl (storage w)). parses r) \<and> distinct (map fst (objects w))"
  let ?idx = "load_links (links_tbl (storage w)) (place_rows (objects_tbl (storage w)) (objects w))"
  have first: "load True w = (Inr (), w\<lparr>objects := ?idx\<rparr>)"
    using assms h by (simp add: load_quiet_ok)
  then show "fst (load True w) = Inr ()" by simp
  have "load True (w\<lparr>objects := ?idx\<rparr>) =
          (Inr (), w\<lparr>objects := load_links (links_tbl (storage w))
                                  (place_rows (objects_tbl (storage w)) ?idx)\<rparr>)"
    using assms h load_quiet_ok [of "w\<lparr>objects := ?idx\<rparr>"] by simp
  also have "\<dots> = (Inr (), w\<lparr>objects := ?idx\<rparr>)"
    using h by (simp add: reload_index)
  finally show "load True (snd (load True w)) = load True w"
    by (simp add: first)
qed

text \<open>
  Claim C4 as stated fails: with the rows \<open>g1\<close>, \<open>bad\<close> (unparsable), \<open>g2\<close> in the
  objects relation, \<open>_load\<close> raises, \<open>g2\<close> is not loaded, and the constructor raises
  too.
\<close>

theorem unparsable_row_aborts_load:
  "fst (load True w_bad_row) = Inl JSONDecodeError
   \<and> map_of (objects (snd (load True w_bad_row))) ''g2'' = None
   \<and> fst (new_kernel (storage w_bad_row) []) = Inl JSONDecodeError"
  by (simp add: load_def and_then_def connect_def w_bad_row_def new_kernel_def init_db_def
      transaction_def)

theorem load_aborts_or_is_idempotent_witness:
  "io_faults w_bad_row = []
   \<and> objects_tbl (storage w_bad_row)
       = [(''g1'', ''note'', Dumped [], ''t1'')] @ (''bad'', ''note'', Garbled ''{'', ''t2'')
           # [(''g2'', ''note'', Dumped [], ''t3'')]
   \<and> map parses [(''g1'', ''note'', Dumped [], ''t1'')] = [True]
   \<and> json_loads (cell (''bad'', ''note'', Garbled ''{'', ''t2'')) = Inl JSONDecodeError
   \<and> load True w_bad_row
       = (Inl JSONDecodeError,
          w_bad_row\<lparr>objects := [(''g1'', \<lparr>uid = ''g1'', otype = ''note'', properties = [], links = [],
                                          created_at = ''t1''\<rparr>)]\<rparr>)
   \<and> fst (new_kernel (storage w_bad_row) []) = Inl JSONDecodeError
   \<and> io_faults w_null_row = []
   \<and> map parses (objects_tbl (storage w_null_row)) = [False, True]
   \<and> fst (load True w_null_row) = Inl TypeError
   \<and> objects (snd (load True w_null_row)) = []
   \<and> io_faults w_stored = [] \<and> map parses (objects_tbl (storage w_stored)) = [True, True]
   \<and> distinct (map fst (objects w_stored))
   \<and> fst (load True w_stored) = Inr ()
   \<and> load True (snd (load True w_stored)) = load True w_stored
   \<and> map fst (objects (snd (load True w_stored))) = [''g1'', ''g2'']"
proof -
  let ?g1 = "(''g1'', ''note'', Dumped [], ''t1'')"
  let ?bad = "(''bad'', ''note'', Garbled ''{'', ''t2'')"
  let ?g2 = "(''g2'', ''note'', Dumped [], ''t3'')"
  let ?null = "(''n1'', ''note'', Null, ''t1'')"
  have h1: "io_faults w_stored = []" "io_faults w_bad_row = []" "io_faults w_null_row = []"
    by (simp_all add: w_stored_def w_bad_row_def w_null_row_def)
  have h2: "\<forall>r \<in> set (objects_tbl (storage w_stored)). parses r" "distinct (map fst (objects w_stored))"
    by (simp_all add: w_stored_def parses_def cell_def)
  have rows: "objects_tbl (storage w_bad_row) = [?g1] @ ?bad # [?g2]"
    by (simp add: w_bad_row_def)
  have good: "\<forall>r \<in> set [?g1]. parses r" "map parses [?g1] = [True]"
    by (simp_all add: parses_def cell_def)
  have bad: "json_loads (cell ?bad) = Inl JSONDecodeError" by (simp add: cell_def)
  have nrows: "objects_tbl (storage w_null_row) = [] @ ?null # [?g2]"
    by (simp add: w_null_row_def)
  have nbad: "json_loads (cell ?null) = Inl TypeError" by (simp add: cell_def)
  have h4: "map fst (objects (snd (load True w_stored))) = [''g1'', ''g2'']"
    by (simp add: load_def and_then_def connect_def w_stored_def load_links_def add_link_at_def)
  have h5: "map parses (objects_tbl (storage w_stored)) = [True, True]"
    "map parses (objects_tbl (storage w_null_row)) = [False, True]"
    by (simp_all add: w_stored_def w_null_row_def parses_def cell_def)
  note at_bad = load_aborts_or_is_idempotent [OF h1(2)]
  note at_null = load_aborts_or_is_idempotent [OF h1(3)]
  note at_stored = load_aborts_or_is_idempotent [OF h1(1)]
  from at_bad rows good(1) bad
  have b: "load True w_bad_row = (Inl JSONDecodeError, w_bad_row\<lparr>objects := place_rows [?g1] (objects w_bad_row)\<rparr>)"
    "new_kernel (storage w_bad_row) []
       = (Inl JSONDecodeError, \<lparr>objects = place_rows [?g1] [], storage = storage w_bad_row, io_faults = []\<rparr>)"
    by blast+
  from at_null nrows nbad
  have n: "load True w_null_row = (Inl TypeError, w_null_row\<lparr>objects := place_rows [] (objects w_null_row)\<rparr>)"
    by (metis empty_iff empty_set)
  from at_stored h2
  have s: "fst (load True w_stored) = Inr ()" "load True (snd (load True w_stored)) = load True w_stored"
    by blast+
  have p: "place_rows [?g1] (objects w_bad_row)
             = [(''g1'', \<lparr>uid = ''g1'', otype = ''note'', properties = [], links = [], created_at = ''t1''\<rparr>)]"
    "place_rows [] (objects w_null_row) = []"
    by (simp_all add: place_rows_def row_object_def cell_def w_bad_row_def w_null_row_def)
  show ?thesis
    using h1 rows good(2) bad b n s p h2(2) h4 h5 by simp
qed

subsection \<open>Breadth-first traversal\<close>

lemma succs_known: "b \<in> set (succs idx p) \<Longrightarrow> p \<in> fst ` set idx"
proof (cases "map_of idx p")
  case None
  assume "b \<in> set (succs idx p)"
  with None show ?thesis by (simp add: succs_def)
next
  case (Some obj)
  then have "(p, obj) \<in> set idx" by (rule map_of_SomeD)
  then show ?thesis by force
qed

lemma within_Suc:
  "within_hops idx a (Suc n) b \<longleftrightarrow> within_hops idx a n b \<or> (\<exists>p. within_hops idx a n p \<and> b \<in> set (succs idx p))"
  using succs_known by (auto simp: list_ex_iff)

lemma within_mono: "within_hops idx a n b \<Longrightarrow> n \<le> m \<Longrightarrow> within_hops idx a m b"
proof (induction m)
  case 0
  then show ?case by simp
next
  case (Suc m)
  show ?case
  proof (cases "n = Suc m")
    case True
    with Suc.prems show ?thesis by simp
  next
    case False
    with Suc have "within_hops idx a m b" by simp
    then show ?thesis by (simp add: within_Suc del: within_hops.simps)
  qed
qed

lemma at_dist_least: "at_dist idx a n x \<Longrightarrow> within_hops idx a m x \<Longrightarrow> n \<le> m"
  unfolding at_dist_def by (meson not_le)

lemma at_dist_order: "at_dist idx a n x \<Longrightarrow> at_dist idx a m y \<Longrightarrow> nearer idx a x y \<Longrightarrow> n \<le> m"
  unfolding nearer_def by (meson at_dist_def at_dist_least)

lemma nearerI: "within_hops idx a n x \<Longrightarrow> at_dist idx a m y \<Longrightarrow> n \<le> m \<Longrightarrow> nearer idx a x y"
  unfolding nearer_def by (meson at_dist_least le_trans within_mono)

lemma at_dist_zero: "at_dist idx a 0 a"
  by (simp add: at_dist_def)

lemma succs_iff:
  "n \<in> set (succs idx u) \<longleftrightarrow>
     (\<exists>obj. map_of idx u = Some obj \<and> n \<in> fst ` set (links obj) \<and> map_of idx n \<noteq> None)"
  by (cases "map_of idx u") (auto simp: succs_def)

lemma expanded_mono: "expanded idx seed depth C P \<Longrightarrow> fst ` set C \<subseteq> fst ` set C' \<Longrightarrow> expanded idx seed depth C' P"
  unfolding expanded_def by (meson subset_trans)

lemma processed_nearer:
  assumes inv: "bfs_inv idx seed depth P C ((u, d) # R)"
  shows "within_hops idx seed m v \<Longrightarrow> int m < d \<Longrightarrow> v \<in> set P"
proof (induction m arbitrary: v)
  case 0
  from inv have keys: "map fst C = P @ u # map fst R" and sh: "shape idx seed C"
    and lab: "labels idx seed depth d ((u, d) # R)"
    by (simp_all add: bfs_inv_def)
  from 0 have v: "v = seed" by simp
  from sh obtain rest where rest: "map fst C = seed # rest" by (auto simp: shape_def)
  show ?case
  proof (cases P)
    case Nil
    with keys rest have "u = seed" by simp
    moreover from lab have "at_dist idx seed (nat d) u" by (simp add: labels_def)
    ultimately have "nat d \<le> 0" using at_dist_least [of idx seed "nat d" seed 0] by simp
    with 0 show ?thesis by simp
  next
    case (Cons p P')
    with keys rest have "p = seed" by simp
    with Cons v show ?thesis by simp
  qed
next
  case (Suc m)
  from inv have keys: "map fst C = P @ u # map fst R"
    and ex: "expanded idx seed depth C P"
    and lab: "labels idx seed depth d ((u, d) # R)"
    by (simp_all add: bfs_inv_def)
  from Suc.prems(1) consider "within_hops idx seed m v"
    | p where "within_hops idx seed m p" "v \<in> set (succs idx p)"
    by (auto simp: within_Suc simp del: within_hops.simps)
  then show ?case
  proof cases
    case 1
    with Suc show ?thesis by simp
  next
    case 2
    with Suc have "p \<in> set P" by simp
    with ex obtain n where n: "at_dist idx seed n p"
      and sub: "int n < depth \<longrightarrow> set (succs idx p) \<subseteq> fst ` set C"
      by (auto simp: expanded_def)
    from n 2(1) have "n \<le> m" by (rule at_dist_least)
    moreover from lab have "d = 0 \<or> d \<le> depth" by (simp add: labels_def)
    ultimately have "int n < depth" using Suc.prems(2) by auto
    with sub 2(2) have "v \<in> fst ` set C" by auto
    then have "v \<in> set (map fst C)" by simp
    then have "v \<in> set P \<or> v \<in> fst ` set ((u, d) # R)" unfolding keys by auto
    then show ?thesis
    proof
      assume "v \<in> set P"
      then show ?thesis .
    next
      assume "v \<in> fst ` set ((u, d) # R)"
      then obtain q where q: "q \<in> set ((u, d) # R)" "fst q = v"
        unfolding image_iff by metis
      with lab have "d \<le> snd q" "at_dist idx seed (nat (snd q)) v" by (auto simp: labels_def)
      with Suc.prems(1) have "nat (snd q) \<le> Suc m" using at_dist_least by blast
      with \<open>d \<le> snd q\<close> Suc.prems(2) show ?thesis by simp
    qed
  qed
qed

lemma discover_step:
  assumes inv: "scan_inv idx seed depth P u d (fst cq) (snd cq)"
    and u: "map_of idx u = Some obj" and l: "l \<in> set (links obj)"
  shows "scan_inv idx seed depth P u d (fst (discover idx d l cq)) (snd (discover idx d l cq))
         \<and> fst ` set (fst cq) \<subseteq> fst ` set (fst (discover idx d l cq))
         \<and> (map_of idx (fst l) \<noteq> None \<longrightarrow> fst l \<in> fst ` set (fst (discover idx d l cq)))"
proof (cases "map_of idx (fst l)")
  case None
  then have "discover idx d l cq = cq" by (simp add: discover_def)
  with inv None show ?thesis by simp
next
  case (Some o')
  show ?thesis
  proof (cases "map_of (fst cq) (fst l) = None")
    case False
    then have "discover idx d l cq = cq" using Some by (auto simp: discover_def)
    moreover from False have "fst l \<in> fst ` set (fst cq)" by (simp add: map_of_eq_None_iff)
    ultimately show ?thesis using inv by simp
  next
    case True
    let ?n = "fst l"
    let ?C = "fst cq" and ?Q = "snd cq"
    let ?C' = "?C @ [(?n, o')]" and ?Q' = "?Q @ [(?n, d + 1)]"
    have disc: "discover idx d l cq = (?C', ?Q')" using Some True by (simp add: discover_def)
    from True have fresh: "?n \<notin> fst ` set ?C" by (simp add: map_of_eq_None_iff)
    from inv have keys: "map fst ?C = P @ u # map fst ?Q" and sh: "shape idx seed ?C"
      and ex: "expanded idx seed depth ?C P" and d0: "0 \<le> d" and dd: "d < depth"
      and du: "at_dist idx seed (nat d) u" and lab: "labels idx seed depth d ?Q"
      and near: "\<forall>v m. within_hops idx seed m v \<and> int m < d \<longrightarrow> v \<in> set P"
      by (simp_all add: scan_inv_def)
    from sh obtain rest where rest: "map fst ?C = seed # rest" by (auto simp: shape_def)
    have succ: "?n \<in> set (succs idx u)"
      using u l Some by (auto simp: succs_iff)
    have far: "\<not> within_hops idx seed m ?n" if "m \<le> nat d" for m
      using that
    proof (induction m)
      case 0
      from rest have "seed \<in> set (map fst ?C)" by simp
      then have "seed \<in> fst ` set ?C" by simp
      with fresh show ?case by auto
    next
      case (Suc m)
      show ?case
      proof
        assume "within_hops idx seed (Suc m) ?n"
        then consider "within_hops idx seed m ?n"
          | p where "within_hops idx seed m p" "?n \<in> set (succs idx p)"
          by (auto simp: within_Suc simp del: within_hops.simps)
        then show False
        proof cases
          case 1
          with Suc show False by simp
        next
          case 2
          from Suc.prems have md: "int m < d" by linarith
          with 2(1) near have "p \<in> set P" by blast
          with ex obtain k where k: "at_dist idx seed k p"
            and sub: "int k < depth \<longrightarrow> set (succs idx p) \<subseteq> fst ` set ?C"
            by (auto simp: expanded_def)
          from k 2(1) have "k \<le> m" by (rule at_dist_least)
          with md dd have "int k < depth" by linarith
          with sub 2(2) fresh show False by auto
        qed
      qed
    qed
    have nd: "nat (d + 1) = Suc (nat d)" using d0 by simp
    have dn: "at_dist idx seed (Suc (nat d)) ?n"
    proof -
      from du have "within_hops idx seed (nat d) u" by (simp add: at_dist_def)
      with succ have "within_hops idx seed (Suc (nat d)) ?n"
        by (auto simp: within_Suc simp del: within_hops.simps)
      moreover have "\<forall>m < Suc (nat d). \<not> within_hops idx seed m ?n" using far by simp
      ultimately show ?thesis by (simp add: at_dist_def)
    qed
    have close: "within_hops idx seed (Suc (nat d)) k" if "k \<in> set (map fst ?C)" for k
    proof -
      from that have "k \<in> set P \<or> k = u \<or> k \<in> fst ` set ?Q" unfolding keys by auto
      then show ?thesis
      proof (elim disjE)
        assume "k \<in> set P"
        from sh have "sorted_wrt (nearer idx seed) (P @ u # map fst ?Q)"
          unfolding keys [symmetric] by (simp add: shape_def)
        with \<open>k \<in> set P\<close> have "nearer idx seed k u" by (simp add: sorted_wrt_append)
        moreover from du have "within_hops idx seed (nat d) u" by (simp add: at_dist_def)
        ultimately have "within_hops idx seed (nat d) k" by (simp add: nearer_def)
        then show ?thesis by (rule within_mono) simp
      next
        assume "k = u"
        with du have "within_hops idx seed (nat d) k" by (simp add: at_dist_def)
        then show ?thesis by (rule within_mono) simp
      next
        assume "k \<in> fst ` set ?Q"
        then obtain q where q: "q \<in> set ?Q" "fst q = k" by auto
        with lab have "snd q \<le> d + 1" "at_dist idx seed (nat (snd q)) k" by (auto simp: labels_def)
        then have "within_hops idx seed (nat (snd q)) k" "nat (snd q) \<le> Suc (nat d)"
          by (simp_all add: at_dist_def)
        then show ?thesis by (rule within_mono)
      qed
    qed
    have sh': "shape idx seed ?C'"
    proof -
      have "\<forall>k \<in> set (map fst ?C). nearer idx seed k ?n"
        using close dn nearerI by blast
      with sh fresh Some rest show ?thesis
        by (auto simp: shape_def sorted_wrt_append)
    qed
    have lab': "labels idx seed depth d ?Q'"
    proof -
      from lab have "\<forall>x \<in> set (map snd ?Q). x \<le> d + 1" by (auto simp: labels_def)
      with lab have "sorted (map snd ?Q @ [d + 1])" by (simp add: labels_def sorted_append)
      with lab dn nd dd show ?thesis by (auto simp: labels_def)
    qed
    have sub: "fst ` set ?C \<subseteq> fst ` set ?C'" by auto
    have "scan_inv idx seed depth P u d ?C' ?Q'"
      unfolding scan_inv_def
      using keys sh' expanded_mono [OF ex sub] d0 dd du lab' near by simp
    with sub show ?thesis unfolding disc by simp
  qed
qed

lemma fold_discover_inv:
  assumes u: "map_of idx u = Some obj"
  shows "scan_inv idx seed depth P u d (fst cq) (snd cq) \<Longrightarrow> set ls \<subseteq> set (links obj) \<Longrightarrow>
         scan_inv idx seed depth P u d (fst (fold (discover idx d) ls cq)) (snd (fold (discover idx d) ls cq))
         \<and> fst ` set (fst cq) \<subseteq> fst ` set (fst (fold (discover idx d) ls cq))
         \<and> (\<forall>l \<in> set ls. map_of idx (fst l) \<noteq> None \<longrightarrow> fst l \<in> fst ` set (fst (fold (discover idx d) ls cq)))"
proof (induction ls arbitrary: cq)
  case Nil
  then show ?case by simp
next
  case (Cons l ls)
  from Cons.prems have l: "l \<in> set (links obj)" and ls: "set ls \<subseteq> set (links obj)" by simp_all
  note one = discover_step [OF Cons.prems(1) u l]
  from one have inv1: "scan_inv idx seed depth P u d (fst (discover idx d l cq)) (snd (discover idx d l cq))"
    by simp
  note rest = Cons.IH [OF inv1 ls]
  show ?case
    using one rest by (simp; blast)
qed

lemma labels_rebase:
  assumes "labels idx seed depth d (q # R)"
  shows "labels idx seed depth (snd q) (q # R) \<and> d \<le> snd q"
proof -
  from assms have srt: "sorted (snd q # map snd R)" by (simp add: labels_def)
  then have lo: "\<forall>x \<in> set (q # R). snd q \<le> snd x" by auto
  from assms have d: "d \<le> snd q" by (simp add: labels_def)
  from assms have "\<forall>x \<in> set (q # R). snd x \<le> d + 1 \<and> (snd x = 0 \<or> snd x \<le> depth)
      \<and> at_dist idx seed (nat (snd x)) (fst x)"
    by (simp add: labels_def)
  with lo srt d show ?thesis by (auto simp: labels_def)
qed

lemma labels_tl: "labels idx seed depth d (q # R) \<Longrightarrow> labels idx seed depth d R"
  by (simp add: labels_def)

lemma bfs_inv_init:
  assumes "map_of idx seed = Some obj"
  shows "bfs_inv idx seed depth [] [(seed, obj)] [(seed, 0)]"
  using assms by (simp add: bfs_inv_def shape_def expanded_def labels_def at_dist_zero)

lemma bfs_inv_pop:
  assumes inv: "bfs_inv idx seed depth P C ((u, d) # R)"
    and C': "map fst C' = P @ u # map fst Q'" and sh: "shape idx seed C'"
    and sub: "fst ` set C \<subseteq> fst ` set C'"
    and cov: "d < depth \<longrightarrow> set (succs idx u) \<subseteq> fst ` set C'"
    and lab: "labels idx seed depth d Q'"
  shows "bfs_inv idx seed depth (P @ [u]) C' Q'"
proof -
  from inv have ex: "expanded idx seed depth C P" and d0: "0 \<le> d"
    and labu: "labels idx seed depth d ((u, d) # R)"
    by (simp_all add: bfs_inv_def)
  from labu have du: "at_dist idx seed (nat d) u" and dcap: "d = 0 \<or> d \<le> depth"
    by (simp_all add: labels_def)
  have "int (nat d) \<le> max depth 0" using d0 dcap by auto
  moreover have "int (nat d) < depth \<longrightarrow> set (succs idx u) \<subseteq> fst ` set C'" using d0 cov by simp
  ultimately have "expanded idx seed depth C' (P @ [u])"
    using expanded_mono [OF ex sub] du by (auto simp: expanded_def)
  moreover have "case Q' of [] \<Rightarrow> True | q # _ \<Rightarrow> 0 \<le> snd q \<and> labels idx seed depth (snd q) Q'"
  proof (cases Q')
    case Nil
    then show ?thesis by simp
  next
    case (Cons q R')
    with lab labels_rebase [of idx seed depth d q R'] d0 show ?thesis by simp
  qed
  ultimately show ?thesis using C' sh by (simp add: bfs_inv_def)
qed

lemma bfs_inv_skip:
  assumes inv: "bfs_inv idx seed depth P C ((u, d) # R)" and "depth \<le> d"
  shows "bfs_inv idx seed depth (P @ [u]) C R"
proof (rule bfs_inv_pop [OF inv])
  from inv show "map fst C = P @ u # map fst R" "shape idx seed C"
    by (simp_all add: bfs_inv_def)
  show "fst ` set C \<subseteq> fst ` set C" by simp
  from assms(2) show "d < depth \<longrightarrow> set (succs idx u) \<subseteq> fst ` set C" by simp
  from inv have "labels idx seed depth d ((u, d) # R)" by (simp add: bfs_inv_def)
  then show "labels idx seed depth d R" by (rule labels_tl)
qed

lemma bfs_inv_entry:
  assumes inv: "bfs_inv idx seed depth P C ((u, d) # R)"
  shows "\<exists>obj. map_of idx u = Some obj"
proof -
  from inv have "u \<in> set (map fst C)" by (simp add: bfs_inv_def)
  then obtain e where "e \<in> set C" "fst e = u" by auto
  moreover from inv have "\<forall>e \<in> set C. map_of idx (fst e) = Some (snd e)"
    by (simp add: bfs_inv_def shape_def)
  ultimately show ?thesis by auto
qed

lemma bfs_inv_expand:
  assumes inv: "bfs_inv idx seed depth P C ((u, d) # R)" and dd: "d < depth"
    and u: "map_of idx u = Some obj"
  shows "bfs_inv idx seed depth (P @ [u])
           (fst (fold (discover idx d) (links obj) (C, R)))
           (snd (fold (discover idx d) (links obj) (C, R)))"
proof -
  let ?C' = "fst (fold (discover idx d) (links obj) (C, R))"
  let ?Q' = "snd (fold (discover idx d) (links obj) (C, R))"
  from inv have labu: "labels idx seed depth d ((u, d) # R)" and d0: "0 \<le> d"
    by (simp_all add: bfs_inv_def)
  have start: "scan_inv idx seed depth P u d (fst (C, R)) (snd (C, R))"
    unfolding scan_inv_def
    using inv dd d0 labu labels_tl [OF labu] processed_nearer [OF inv]
    by (auto simp: bfs_inv_def labels_def)
  note fin = fold_discover_inv [OF u start subset_refl]
  from fin have sc: "scan_inv idx seed depth P u d ?C' ?Q'" by simp
  from fin have sub: "fst ` set C \<subseteq> fst ` set ?C'" by simp
  from fin have cover: "\<forall>l \<in> set (links obj). map_of idx (fst l) \<noteq> None \<longrightarrow> fst l \<in> fst ` set ?C'"
    by simp
  have all: "set (succs idx u) \<subseteq> fst ` set ?C'"
  proof
    fix n assume "n \<in> set (succs idx u)"
    with u obtain l where "l \<in> set (links obj)" "fst l = n" "map_of idx n \<noteq> None"
      by (auto simp: succs_iff)
    with cover show "n \<in> fst ` set ?C'" by blast
  qed
  show ?thesis
  proof (rule bfs_inv_pop [OF inv])
    from sc show "map fst ?C' = P @ u # map fst ?Q'" "shape idx seed ?C'" "labels idx seed depth d ?Q'"
      by (simp_all add: scan_inv_def)
    show "fst ` set C \<subseteq> fst ` set ?C'" by (rule sub)
    from all show "d < depth \<longrightarrow> set (succs idx u) \<subseteq> fst ` set ?C'" by simp
  qed
qed

lemma bfs_runs:
  "bfs_inv idx seed depth P C Q \<Longrightarrow>
     \<exists>P' C'. bfs idx depth C Q = Inr C' \<and> bfs_inv idx seed depth P' C' []"
proof (induction idx depth C Q arbitrary: P rule: bfs.induct)
  case (1 idx depth cluster)
  then show ?case by auto
next
  case (2 idx depth cluster current_uid current_depth queue)
  show ?case
  proof (cases "depth \<le> current_depth")
    case True
    from bfs_inv_skip [OF "2.prems" True] "2.IH"(1) [OF True]
    show ?thesis using True by simp
  next
    case False
    from bfs_inv_entry [OF "2.prems"] obtain obj where u: "map_of idx current_uid = Some obj" ..
    from False have dd: "current_depth < depth" by simp
    from bfs_inv_expand [OF "2.prems" dd u] "2.IH"(2) [OF False u]
    show ?thesis using False u by simp
  qed
qed

lemma bfs_inv_final:
  assumes "bfs_inv idx seed depth P C []"
  shows "distinct (map fst C) \<and> (\<forall>e \<in> set C. map_of idx (fst e) = Some (snd e))
         \<and> (\<exists>rest. map fst C = seed # rest)
         \<and> sorted_wrt (nearer idx seed) (map fst C)
         \<and> (\<forall>k \<in> set (map fst C). within_hops idx seed (nat depth) k)"
proof -
  from assms have keys: "map fst C = P" and sh: "shape idx seed C"
    and ex: "expanded idx seed depth C P"
    by (simp_all add: bfs_inv_def)
  have "within_hops idx seed (nat depth) k" if "k \<in> set P" for k
  proof -
    from ex that obtain n where "at_dist idx seed n k" "int n \<le> max depth 0"
      by (auto simp: expanded_def)
    then have "within_hops idx seed n k" "n \<le> nat depth" by (auto simp: at_dist_def)
    then show ?thesis by (rule within_mono)
  qed
  with sh keys show ?thesis by (simp add: shape_def)
qed

lemma keyed_entry:
  assumes "keyed idx" and "\<forall>e \<in> set C. map_of idx (fst e) = Some (snd e)"
  shows "map uid (map snd C) = map fst C"
proof -
  have "uid (snd e) = fst e" if "e \<in> set C" for e
  proof -
    from that assms(2) have "map_of idx (fst e) = Some (snd e)" by simp
    then have "(fst e, snd e) \<in> set idx" by (rule map_of_SomeD)
    with assms(1) show ?thesis by (auto simp: keyed_def)
  qed
  then show ?thesis by simp
qed

lemma bfs_inv_complete:
  assumes "bfs_inv idx seed depth P C []"
  shows "within_hops idx seed m k \<Longrightarrow> m \<le> nat depth \<Longrightarrow> k \<in> set (map fst C)"
proof (induction m arbitrary: k)
  case 0
  from assms have "shape idx seed C" by (simp add: bfs_inv_def)
  then have "\<exists>rest. map fst C = seed # rest" by (simp add: shape_def)
  with 0 show ?case by auto
next
  case (Suc m)
  from assms have keys: "map fst C = P" and ex: "expanded idx seed depth C P"
    by (simp_all add: bfs_inv_def)
  from Suc.prems(1) consider "within_hops idx seed m k"
    | p where "within_hops idx seed m p" "k \<in> set (succs idx p)"
    by (auto simp: within_Suc simp del: within_hops.simps)
  then show ?case
  proof cases
    case 1
    with Suc show ?thesis by simp
  next
    case 2
    with Suc have "p \<in> set P" by (simp add: keys)
    with ex obtain n where n: "at_dist idx seed n p"
      and sub: "int n < depth \<longrightarrow> set (succs idx p) \<subseteq> fst ` set C"
      by (auto simp: expanded_def)
    from n 2(1) have "n \<le> m" by (rule at_dist_least)
    with Suc.prems(2) have "int n < depth" by linarith
    with sub 2(2) have "k \<in> fst ` set C" by auto
    then show ?thesis by simp
  qed
qed

lemma entries_append: "entries idx (xs @ ys) = entries idx xs @ entries idx ys"
  by (simp add: entries_def)

lemma entries_single: "map_of idx t = Some obj \<Longrightarrow> entries idx [t] = [(t, obj)]"
  by (simp add: entries_def)

lemma entries_Cons:
  "entries idx (k # ks) = (case map_of idx k of None \<Rightarrow> [] | Some obj \<Rightarrow> [(k, obj)]) @ entries idx ks"
  by (simp add: entries_def)

lemma map_of_entries: "map_of (entries idx ks) t = (if t \<in> set ks then map_of idx t else None)"
proof (induction ks)
  case Nil
  show ?case by (simp add: entries_def)
next
  case (Cons k ks)
  show ?case
    unfolding entries_Cons using Cons
    by (cases "map_of idx k") auto
qed

lemma entries_keys: "known idx ks \<Longrightarrow> map fst (entries idx ks) = ks"
proof (induction ks)
  case Nil
  show ?case by (simp add: entries_def)
next
  case (Cons k ks)
  then obtain obj where "map_of idx k = Some obj" by (auto simp: known_def)
  moreover from Cons have "map fst (entries idx ks) = ks" by (simp add: known_def)
  ultimately show ?case by (simp add: entries_Cons)
qed

lemma discover_visit:
  "discover idx d l (entries idx seen, Q @ labelled (d + 1) nxt)
     = (entries idx (fst (visit idx (fst l) (seen, nxt))),
        Q @ labelled (d + 1) (snd (visit idx (fst l) (seen, nxt))))"
proof (cases "map_of idx (fst l)")
  case None
  then show ?thesis by (simp add: discover_def visit_def)
next
  case (Some obj)
  show ?thesis
  proof (cases "fst l \<in> set seen")
    case True
    with Some show ?thesis by (simp add: discover_def visit_def map_of_entries)
  next
    case False
    with Some show ?thesis
      by (simp add: discover_def visit_def map_of_entries entries_append entries_single labelled_def)
  qed
qed

lemma fold_discover_visit:
  "fold (discover idx d) ls (entries idx seen, Q @ labelled (d + 1) nxt)
     = (entries idx (fst (fold (visit idx) (map fst ls) (seen, nxt))),
        Q @ labelled (d + 1) (snd (fold (visit idx) (map fst ls) (seen, nxt))))"
proof (induction ls arbitrary: seen nxt)
  case Nil
  show ?case by simp
next
  case (Cons l ls)
  let ?v = "visit idx (fst l) (seen, nxt)"
  have "fold (discover idx d) (l # ls) (entries idx seen, Q @ labelled (d + 1) nxt)
          = fold (discover idx d) ls (entries idx (fst ?v), Q @ labelled (d + 1) (snd ?v))"
    by (simp add: discover_visit)
  also have "\<dots> = (entries idx (fst (fold (visit idx) (map fst ls) (fst ?v, snd ?v))),
        Q @ labelled (d + 1) (snd (fold (visit idx) (map fst ls) (fst ?v, snd ?v))))"
    by (rule Cons.IH)
  finally show ?case by simp
qed

lemma bfs_skip: "depth \<le> d \<Longrightarrow> bfs idx depth C (labelled d F) = Inr C"
  by (induction F) (simp_all add: labelled_def)

lemma bfs_level:
  assumes "d < depth"
  shows "known idx F \<Longrightarrow>
         bfs idx depth (entries idx seen) (labelled d F @ labelled (d + 1) nxt)
           = bfs idx depth
               (entries idx (fst (fold (\<lambda>u. fold (visit idx) (out_targets idx u)) F (seen, nxt))))
               (labelled (d + 1) (snd (fold (\<lambda>u. fold (visit idx) (out_targets idx u)) F (seen, nxt))))"
proof (induction F arbitrary: seen nxt)
  case Nil
  show ?case by (simp add: labelled_def)
next
  case (Cons u F)
  then obtain obj where u: "map_of idx u = Some obj" and F: "known idx F"
    by (auto simp: known_def)
  let ?r = "fold (visit idx) (out_targets idx u) (seen, nxt)"
  have t: "out_targets idx u = map fst (links obj)" using u by (simp add: out_targets_def)
  have "bfs idx depth (entries idx seen) (labelled d (u # F) @ labelled (d + 1) nxt)
          = bfs idx depth (entries idx seen) ((u, d) # (labelled d F @ labelled (d + 1) nxt))"
    by (simp add: labelled_def)
  also have "\<dots> = bfs idx depth
        (fst (fold (discover idx d) (links obj) (entries idx seen, labelled d F @ labelled (d + 1) nxt)))
        (snd (fold (discover idx d) (links obj) (entries idx seen, labelled d F @ labelled (d + 1) nxt)))"
    using assms u by simp
  also have "\<dots> = bfs idx depth (entries idx (fst ?r)) (labelled d F @ labelled (d + 1) (snd ?r))"
    unfolding fold_discover_visit t by simp
  also have "\<dots> = bfs idx depth
        (entries idx (fst (fold (\<lambda>u. fold (visit idx) (out_targets idx u)) F (fst ?r, snd ?r))))
        (labelled (d + 1) (snd (fold (\<lambda>u. fold (visit idx) (out_targets idx u)) F (fst ?r, snd ?r))))"
    by (rule Cons.IH [OF F])
  finally show ?case by simp
qed

lemma visit_known:
  "known idx (fst sn) \<Longrightarrow> known idx (fst (visit idx t sn))"
  "known idx (snd sn) \<Longrightarrow> known idx (snd (visit idx t sn))"
  by (auto simp: visit_def known_def)

lemma fold_visit_known:
  "known idx (fst sn) \<Longrightarrow> known idx (fst (fold (visit idx) ts sn))"
  "known idx (snd sn) \<Longrightarrow> known idx (snd (fold (visit idx) ts sn))"
  by (induction ts arbitrary: sn) (simp_all add: visit_known)

lemma fold_fold_visit_known:
  "known idx (fst sn) \<Longrightarrow> known idx (fst (fold (\<lambda>u. fold (visit idx) (f u)) us sn))"
  "known idx (snd sn) \<Longrightarrow> known idx (snd (fold (\<lambda>u. fold (visit idx) (f u)) us sn))"
  by (induction us arbitrary: sn) (simp_all add: fold_visit_known)

lemma expand_level_known:
  "known idx seen \<Longrightarrow> known idx (fst (expand_level idx seen F))"
  "known idx (snd (expand_level idx seen F))"
  unfolding expand_level_def
  by (rule fold_fold_visit_known; simp add: known_def)+

lemma levels_known: "known idx seen \<Longrightarrow> known idx (levels idx n seen F)"
  by (induction n arbitrary: seen F) (simp_all add: expand_level_known)

text \<open>The queue of the \<open>while\<close> loop works through the levels one after the other.\<close>

lemma bfs_levels:
  "nat (depth - d) = n \<Longrightarrow> known idx F \<Longrightarrow>
   bfs idx depth (entries idx seen) (labelled d F) = Inr (entries idx (levels idx n seen F))"
proof (induction n arbitrary: d seen F)
  case 0
  then have "depth \<le> d" by simp
  then show ?case by (simp add: bfs_skip)
next
  case (Suc n)
  then have dd: "d < depth" and n: "nat (depth - (d + 1)) = n" by simp_all
  let ?r = "expand_level idx seen F"
  have "bfs idx depth (entries idx seen) (labelled d F)
          = bfs idx depth (entries idx seen) (labelled d F @ labelled (d + 1) [])"
    by (simp add: labelled_def)
  also have "\<dots> = bfs idx depth (entries idx (fst ?r)) (labelled (d + 1) (snd ?r))"
    unfolding expand_level_def by (rule bfs_level [OF dd Suc.prems(2)])
  also have "\<dots> = Inr (entries idx (levels idx n (fst ?r) (snd ?r)))"
    by (rule Suc.IH [OF n expand_level_known(2)])
  finally show ?case by simp
qed

lemma bfs_discovery_order:
  assumes "map_of idx seed = Some obj"
  shows "bfs idx depth [(seed, obj)] [(seed, 0)] = Inr (entries idx (discovery_order idx seed depth))"
    and "map fst (entries idx (discovery_order idx seed depth)) = discovery_order idx seed depth"
proof -
  have k: "known idx [seed]" using assms by (simp add: known_def)
  have "bfs idx depth (entries idx [seed]) (labelled 0 [seed])
          = Inr (entries idx (levels idx (nat depth) [seed] [seed]))"
    by (rule bfs_levels [OF _ k]) simp
  then show "bfs idx depth [(seed, obj)] [(seed, 0)] = Inr (entries idx (discovery_order idx seed depth))"
    using assms by (simp add: entries_single labelled_def discovery_order_def)
  show "map fst (entries idx (discovery_order idx seed depth)) = discovery_order idx seed depth"
    unfolding discovery_order_def by (rule entries_keys [OF levels_known [OF k]])
qed

text \<open>
  Claim C8. \<open>get_neighborhood uid depth\<close> returns the empty list when \<open>uid\<close> is not in
  the index. Otherwise it returns (without raising) the objects of a cluster whose uids
  are, in this order, the breadth-first discovery order from the seed with \<open>depth\<close>
  levels expanded. The cluster starts with the seed object, lists no uid twice, and holds
  for each uid the object the index has under it. Its uids are exactly those that a path
  of at most \<open>depth\<close> links through objects of the index reaches from the seed: none
  that is farther away, and all that are that near. An object never comes before one
  that is nearer to the seed. When every object is stored under its own uid, the uids of
  the returned objects are those of the cluster, and no object is returned twice.
\<close>

theorem get_neighborhood_contract:
  "(map_of (objects w) seed = None \<longrightarrow> get_neighborhood w seed depth = Inr [])
   \<and> (\<forall>obj. map_of (objects w) seed = Some obj \<longrightarrow>
        (\<exists>cluster. get_neighborhood w seed depth = Inr (map snd cluster)
           \<and> map fst cluster = discovery_order (objects w) seed depth
           \<and> (\<exists>rest. cluster = (seed, obj) # rest)
           \<and> distinct (map fst cluster)
           \<and> (\<forall>e \<in> set cluster. map_of (objects w) (fst e) = Some (snd e))
           \<and> (\<forall>k \<in> set (map fst cluster). within_hops (objects w) seed (nat depth) k)
           \<and> (\<forall>k. within_hops (objects w) seed (nat depth) k \<longrightarrow> k \<in> set (map fst cluster))
           \<and> sorted_wrt (nearer (objects w) seed) (map fst cluster)
           \<and> (keyed (objects w) \<longrightarrow>
                 map uid (map snd cluster) = map fst cluster \<and> distinct (map snd cluster))))"
proof (intro conjI allI impI)
  assume "map_of (objects w) seed = None"
  then show "get_neighborhood w seed depth = Inr []" by (simp add: get_neighborhood_def)
next
  fix obj
  assume seed: "map_of (objects w) seed = Some obj"
  from bfs_runs [OF bfs_inv_init [OF seed]]
  obtain P C where run: "bfs (objects w) depth [(seed, obj)] [(seed, 0)] = Inr C"
    and inv: "bfs_inv (objects w) seed depth P C []"
    by blast
  from run bfs_discovery_order [OF seed, of depth]
  have order: "map fst C = discovery_order (objects w) seed depth" by simp
  note fin = bfs_inv_final [OF inv]
  from fin have entries: "\<forall>e \<in> set C. map_of (objects w) (fst e) = Some (snd e)" by simp
  from fin have "\<exists>rest. map fst C = seed # rest" by (elim conjE)
  then obtain rest where keys: "map fst C = seed # rest" by (elim exE)
  then obtain e C' where C: "C = e # C'" and e: "fst e = seed" by (cases C) auto
  with entries seed have "snd e = obj" by simp
  with e have "e = (seed, obj)" by (simp add: prod_eq_iff)
  with C have first: "\<exists>rest. C = (seed, obj) # rest" by simp
  have all: "\<forall>k. within_hops (objects w) seed (nat depth) k \<longrightarrow> k \<in> set (map fst C)"
    using bfs_inv_complete [OF inv] by blast
  have uids: "map uid (map snd C) = map fst C \<and> distinct (map snd C)" if "keyed (objects w)"
  proof -
    from keyed_entry [OF that entries] have m: "map uid (map snd C) = map fst C" .
    from fin have "distinct (map fst C)" by (elim conjE)
    with m have "distinct (map uid (map snd C))" by (simp only:)
    then have "distinct (map snd C)" by (simp only: distinct_map)
    with m show ?thesis by simp
  qed
  have "get_neighborhood w seed depth = Inr (map snd C)"
    using seed run by (simp add: get_neighborhood_def)
  moreover note order first
  moreover from fin have "distinct (map fst C)" by (elim conjE)
  moreover note entries
  moreover from fin have "\<forall>k \<in> set (map fst C). within_hops (objects w) seed (nat depth) k"
    by (elim conjE)
  moreover note all
  moreover from fin have "sorted_wrt (nearer (objects w) seed) (map fst C)" by (elim conjE)
  moreover from uids have "keyed (objects w) \<longrightarrow>
                 map uid (map snd C) = map fst C \<and> distinct (map snd C)" by (rule impI)
  ultimately
  show "\<exists>cluster. get_neighborhood w seed depth = Inr (map snd cluster)
           \<and> map fst cluster = discovery_order (objects w) seed depth
           \<and> (\<exists>rest. cluster = (seed, obj) # rest)
           \<and> distinct (map fst cluster)
           \<and> (\<forall>e \<in> set cluster. map_of (objects w) (fst e) = Some (snd e))
           \<and> (\<forall>k \<in> set (map fst cluster). within_hops (objects w) seed (nat depth) k)
           \<and> (\<forall>k. within_hops (objects w) seed (nat depth) k \<longrightarrow> k \<in> set (map fst cluster))
           \<and> sorted_wrt (nearer (objects w) seed) (map fst cluster)
           \<and> (keyed (objects w) \<longrightarrow>
                 map uid (map snd cluster) = map fst cluster \<and> distinct (map snd cluster))"
    by - (rule exI [of _ C], intro conjI)
qed

lemma graph_run:
  "get_neighborhood w_graph ''a'' 1 = Inr [node ''a'' [''b'', ''zz''], node ''b'' [''a'', ''c'']]"
  "get_neighborhood w_graph ''a'' 2
     = Inr [node ''a'' [''b'', ''zz''], node ''b'' [''a'', ''c''], node ''c'' []]"
  "get_neighborhood w_graph ''a'' 0 = Inr [node ''a'' [''b'', ''zz'']]"
  by (simp_all add: get_neighborhood_def w_graph_def node_def discover_def)

lemma tree_run:
  "get_neighborhood w_tree ''a'' 2
     = Inr [node ''a'' [''b'', ''c''], node ''b'' [''z''], node ''c'' [''y'', ''a''], node ''z'' [],
            node ''y'' []]"
  "get_neighborhood w_tree ''a'' 1 = Inr [node ''a'' [''b'', ''c''], node ''b'' [''z''], node ''c'' [''y'', ''a'']]"
  by (simp_all add: get_neighborhood_def w_tree_def node_def discover_def)

lemma tree_order:
  "discovery_order (objects w_tree) ''a'' 2 = [''a'', ''b'', ''c'', ''z'', ''y'']"
  "discovery_order (objects w_tree) ''a'' 1 = [''a'', ''b'', ''c'']"
  by (simp_all add: discovery_order_def expand_level_def visit_def out_targets_def w_tree_def
      node_def numeral_2_eq_2)

theorem get_neighborhood_contract_witness:
  "map_of (objects w_graph) ''zz'' = None \<and> get_neighborhood w_graph ''zz'' 1 = Inr []
   \<and> map_of (objects w_graph) ''a'' = Some (node ''a'' [''b'', ''zz'']) \<and> keyed (objects w_graph)
   \<and> get_neighborhood w_graph ''a'' 1 = Inr [node ''a'' [''b'', ''zz''], node ''b'' [''a'', ''c'']]
   \<and> within_hops (objects w_graph) ''a'' (nat 1) ''b''
   \<and> nearer (objects w_graph) ''a'' ''a'' ''b''
   \<and> map_of (objects w_tree) ''a'' = Some (node ''a'' [''b'', ''c'']) \<and> keyed (objects w_tree)
   \<and> get_neighborhood w_tree ''a'' 2
       = Inr [node ''a'' [''b'', ''c''], node ''b'' [''z''], node ''c'' [''y'', ''a''], node ''z'' [],
              node ''y'' []]
   \<and> discovery_order (objects w_tree) ''a'' 2 = [''a'', ''b'', ''c'', ''z'', ''y'']
   \<and> within_hops (objects w_tree) ''a'' (nat 2) ''y''
   \<and> \<not> within_hops (objects w_tree) ''a'' (nat 1) ''z''"
proof -
  have h1: "map_of (objects w_graph) ''zz'' = None"
    and h2: "map_of (objects w_graph) ''a'' = Some (node ''a'' [''b'', ''zz''])"
    and h3: "keyed (objects w_graph)"
    by (simp_all add: w_graph_def keyed_def node_def)
  have t2: "map_of (objects w_tree) ''a'' = Some (node ''a'' [''b'', ''c''])"
    and t3: "keyed (objects w_tree)"
    by (simp_all add: w_tree_def keyed_def node_def)
  have z: "get_neighborhood w_graph ''zz'' 1 = Inr []"
    using conjunct1 [OF get_neighborhood_contract [of w_graph "''zz''" 1]] h1 by (rule mp)
  note c = conjunct2 [OF get_neighborhood_contract [of w_graph "''a''" 1], rule_format, OF h2]
  from c obtain cluster where
    r: "get_neighborhood w_graph ''a'' 1 = Inr (map snd cluster)"
    and k: "keyed (objects w_graph) \<longrightarrow>
              map uid (map snd cluster) = map fst cluster \<and> distinct (map snd cluster)"
    and hops: "\<forall>k \<in> set (map fst cluster). within_hops (objects w_graph) ''a'' (nat 1) k"
    and ord: "sorted_wrt (nearer (objects w_graph) ''a'') (map fst cluster)"
    by (elim exE conjE) (rule that)
  from r have "map snd cluster = [node ''a'' [''b'', ''zz''], node ''b'' [''a'', ''c'']]"
    by (simp add: graph_run)
  with k h3 have keys: "map fst cluster = [''a'', ''b'']" by (simp add: node_def)
  from hops ord have g: "within_hops (objects w_graph) ''a'' (nat 1) ''b''"
    "nearer (objects w_graph) ''a'' ''a'' ''b''"
    unfolding keys by simp_all
  note d = conjunct2 [OF get_neighborhood_contract [of w_tree "''a''" 2], rule_format, OF t2]
  from d obtain tc :: cluster where
    tk: "map fst tc = discovery_order (objects w_tree) ''a'' 2"
    and thops: "\<forall>k \<in> set (map fst tc). within_hops (objects w_tree) ''a'' (nat 2) k"
    by (elim exE conjE) (rule that)
  from tk have tkeys: "map fst tc = [''a'', ''b'', ''c'', ''z'', ''y'']" by (simp add: tree_order)
  have "''y'' \<in> set (map fst tc)" unfolding tkeys by simp
  with thops have ty: "within_hops (objects w_tree) ''a'' (nat 2) ''y''" by (rule bspec)
  note d1 = conjunct2 [OF get_neighborhood_contract [of w_tree "''a''" 1], rule_format, OF t2]
  from d1 obtain tc1 :: cluster where
    tk1: "map fst tc1 = discovery_order (objects w_tree) ''a'' 1"
    and tall: "\<forall>k. within_hops (objects w_tree) ''a'' (nat 1) k \<longrightarrow> k \<in> set (map fst tc1)"
    by (elim exE conjE) (rule that)
  from tk1 have tkeys1: "map fst tc1 = [''a'', ''b'', ''c'']" by (simp add: tree_order)
  have "''z'' \<notin> set (map fst tc1)" unfolding tkeys1 by simp
  with tall have tz: "\<not> within_hops (objects w_tree) ''a'' (nat 1) ''z''" by blast
  show ?thesis
    by (intro conjI h1 z h2 h3 graph_run(1) g t2 t3 tree_run(1) tree_order(1) ty tz)
qed

section \<open>Properties of the Scrubbing Gate\<close>

subsection \<open>The texts that a pattern describes\<close>

lemma first_some_SomeD: "first_some f xs = Some y \<Longrightarrow> \<exists>x \<in> set xs. f x = Some y"
  by (induction xs) (auto split: option.splits)

lemma first_some_not_None: "x \<in> set xs \<Longrightarrow> f x \<noteq> None \<Longrightarrow> first_some f xs \<noteq> None"
  by (induction xs) (auto split: option.splits)

lemma first_some_None_iff: "first_some f xs = None \<longleftrightarrow> (\<forall>x \<in> set xs. f x = None)"
  by (induction xs) (auto split: option.splits)

lemma ci_prefix_length: "ci_prefix l s \<Longrightarrow> length l \<le> length s"
  by (induction l s rule: ci_prefix.induct) auto

lemma ci_prefix_append: "ci_prefix l u \<Longrightarrow> ci_prefix l (u @ t)"
  by (induction l u rule: ci_prefix.induct) auto

lemma ci_prefix_cut: "ci_prefix l (u @ t) \<Longrightarrow> length l \<le> length u \<Longrightarrow> ci_prefix l u"
  by (induction l u rule: ci_prefix.induct) auto

lemma takeWhile_covers:
  "k \<le> length s \<Longrightarrow> \<forall>x \<in> set (take k s). c x \<Longrightarrow> k \<le> length (takeWhile c s)"
proof (induction s arbitrary: k)
  case Nil
  then show ?case by simp
next
  case (Cons a s)
  show ?case
  proof (cases k)
    case 0
    then show ?thesis by simp
  next
    case (Suc j)
    with Cons.prems have "c a" "j \<le> length s" "\<forall>x \<in> set (take j s). c x" by simp_all
    with Cons.IH [of j] Suc show ?thesis by simp
  qed
qed

lemma take_takeWhile_all:
  "k \<le> length (takeWhile c s) \<Longrightarrow> \<forall>x \<in> set (take k s). c x"
proof (induction s arbitrary: k)
  case Nil
  then show ?case by simp
next
  case (Cons a s)
  show ?case
  proof (cases k)
    case 0
    then show ?thesis by simp
  next
    case (Suc j)
    with Cons.prems have a: "c a" by (auto split: if_splits)
    with Cons.prems Suc have "j \<le> length (takeWhile c s)" by simp
    from Cons.IH [OF this] a Suc show ?thesis by simp
  qed
qed

lemma greedy_bounds:
  "k \<le> greedy c hi s \<longleftrightarrow>
     k \<le> length (takeWhile c s) \<and> (case hi of None \<Rightarrow> True | Some h \<Rightarrow> k \<le> h)"
  by (auto simp: greedy_def split: option.splits)

lemma rep_counts: "k \<in> set (rev [lo ..< Suc g]) \<longleftrightarrow> lo \<le> k \<and> k \<le> g"
  by auto

lemma matchi_sound: "matchi its p s = Some r \<Longrightarrow> \<exists>u. s = u @ r \<and> lang its u"
proof (induction its arbitrary: p s)
  case Nil
  then show ?case by simp
next
  case (Cons it its)
  show ?case
  proof (cases it)
    case WordB
    with Cons.prems have "matchi its p s = Some r" by (simp split: if_splits)
    from Cons.IH [OF this] WordB show ?thesis by simp
  next
    case (Lit l)
    with Cons.prems have pre: "ci_prefix l s"
      and rest: "matchi its (prev_after p (take (length l) s)) (drop (length l) s) = Some r"
      by (simp_all split: if_splits)
    from Cons.IH [OF rest] obtain u where u: "drop (length l) s = u @ r" "lang its u" by blast
    let ?w = "take (length l) s @ u"
    have len: "length l \<le> length s" using pre by (rule ci_prefix_length)
    have "?w @ r = take (length l) s @ drop (length l) s" using u(1) by simp
    then have s: "s = ?w @ r" by simp
    have "ci_prefix l (?w @ r)" using pre s by simp
    then have "ci_prefix l ?w" by (rule ci_prefix_cut) (simp add: len)
    moreover have "drop (length l) ?w = u" using len by simp
    ultimately have "lang (Lit l # its) ?w" using u(2) by simp
    with s Lit show ?thesis by blast
  next
    case (Alt ls)
    with Cons.prems have "first_some
        (\<lambda>l. if ci_prefix l s
             then matchi its (prev_after p (take (length l) s)) (drop (length l) s)
             else None) ls = Some r"
      by (simp only: matchi.simps)
    then obtain l where l: "l \<in> set ls"
      and hit: "(if ci_prefix l s
                 then matchi its (prev_after p (take (length l) s)) (drop (length l) s)
                 else None) = Some r"
      by (blast dest: first_some_SomeD)
    then have pre: "ci_prefix l s"
      and rest: "matchi its (prev_after p (take (length l) s)) (drop (length l) s) = Some r"
      by (simp_all split: if_splits)
    from Cons.IH [OF rest] obtain u where u: "drop (length l) s = u @ r" "lang its u" by blast
    let ?w = "take (length l) s @ u"
    have len: "length l \<le> length s" using pre by (rule ci_prefix_length)
    have "?w @ r = take (length l) s @ drop (length l) s" using u(1) by simp
    then have s: "s = ?w @ r" by simp
    have "ci_prefix l (?w @ r)" using pre s by simp
    then have "ci_prefix l ?w" by (rule ci_prefix_cut) (simp add: len)
    moreover have "drop (length l) ?w = u" using len by simp
    ultimately have "lang (Alt ls # its) ?w" using u(2) l by auto
    with s Alt show ?thesis by blast
  next
    case (Rep c lo hi)
    with Cons.prems have "first_some (\<lambda>k. matchi its (prev_after p (take k s)) (drop k s))
        (rev [lo ..< Suc (greedy c hi s)]) = Some r"
      by (simp only: matchi.simps)
    then obtain k where k: "k \<in> set (rev [lo ..< Suc (greedy c hi s)])"
      and rest: "matchi its (prev_after p (take k s)) (drop k s) = Some r"
      by (blast dest: first_some_SomeD)
    from k have lo: "lo \<le> k" and kg: "k \<le> greedy c hi s" by (simp_all only: rep_counts)
    from kg have kt: "k \<le> length (takeWhile c s)"
      and kh: "case hi of None \<Rightarrow> True | Some h \<Rightarrow> k \<le> h"
      by (simp_all add: greedy_bounds)
    from kt have ks: "k \<le> length s" using length_takeWhile_le [of c s] by linarith
    from Cons.IH [OF rest] obtain u where u: "drop k s = u @ r" "lang its u" by blast
    let ?w = "take k s @ u"
    have "?w @ r = take k s @ drop k s" using u(1) by simp
    then have s: "s = ?w @ r" by simp
    have tk: "take k ?w = take k s" and dk: "drop k ?w = u" and lk: "k \<le> length ?w"
      using ks by simp_all
    have "lo \<le> k \<and> k \<le> length ?w \<and> (case hi of None \<Rightarrow> True | Some h \<Rightarrow> k \<le> h)
          \<and> (\<forall>x \<in> set (take k ?w). c x) \<and> lang its (drop k ?w)"
      unfolding tk dk using lo lk kh take_takeWhile_all [OF kt] u(2) by (intro conjI)
    then have "lang (Rep c lo hi # its) ?w"
      unfolding lang.simps by (rule exI)
    with s Rep show ?thesis by blast
  qed
qed

lemma matchi_complete:
  "lang its u \<Longrightarrow> WordB \<notin> set its \<Longrightarrow> matchi its p (u @ t) \<noteq> None"
proof (induction its arbitrary: p u)
  case Nil
  then show ?case by simp
next
  case (Cons it its)
  from Cons.prems have wf: "WordB \<notin> set its" and it: "it \<noteq> WordB" by auto
  show ?case
  proof (cases it)
    case WordB
    with it show ?thesis by simp
  next
    case (Lit l)
    with Cons.prems have pre: "ci_prefix l u" and rest: "lang its (drop (length l) u)" by simp_all
    have len: "length l \<le> length u" using pre by (rule ci_prefix_length)
    from Cons.IH [OF rest wf]
    have "matchi its (prev_after p (take (length l) (u @ t))) (drop (length l) u @ t) \<noteq> None" .
    with pre len Lit show ?thesis by (simp add: ci_prefix_append)
  next
    case (Alt ls)
    with Cons.prems obtain l where l: "l \<in> set ls" and pre: "ci_prefix l u"
      and rest: "lang its (drop (length l) u)" by auto
    have len: "length l \<le> length u" using pre by (rule ci_prefix_length)
    from Cons.IH [OF rest wf]
    have "matchi its (prev_after p (take (length l) (u @ t))) (drop (length l) u @ t) \<noteq> None" .
    with pre len have "(if ci_prefix l (u @ t)
        then matchi its (prev_after p (take (length l) (u @ t))) (drop (length l) (u @ t))
        else None) \<noteq> None"
      by (simp add: ci_prefix_append)
    with l Alt show ?thesis
      by (simp only: matchi.simps) (rule first_some_not_None)
  next
    case (Rep c lo hi)
    with Cons.prems obtain k where lo: "lo \<le> k" and ku: "k \<le> length u"
      and kh: "case hi of None \<Rightarrow> True | Some h \<Rightarrow> k \<le> h"
      and all: "\<forall>x \<in> set (take k u). c x" and rest: "lang its (drop k u)"
      by auto
    have "k \<le> length (takeWhile c (u @ t))"
      using ku all by (intro takeWhile_covers) simp_all
    with kh have "k \<le> greedy c hi (u @ t)" by (simp add: greedy_bounds)
    with lo have mem: "k \<in> set (rev [lo ..< Suc (greedy c hi (u @ t))])" by (simp only: rep_counts)
    from Cons.IH [OF rest wf]
    have "matchi its (prev_after p (take k (u @ t))) (drop k u @ t) \<noteq> None" .
    with ku have "matchi its (prev_after p (take k (u @ t))) (drop k (u @ t)) \<noteq> None" by simp
    with mem Rep show ?thesis
      by (simp only: matchi.simps) (rule first_some_not_None)
  qed
qed

subsection \<open>What the detectors can match\<close>

lemma ci_prefix_chars:
  "ci_prefix l u \<Longrightarrow> \<forall>x \<in> set (take (length l) u). \<exists>p \<in> set l. fold_case p = fold_case x"
  by (induction l u rule: ci_prefix.induct) auto

lemma lang_avoids:
  "lang its u \<Longrightarrow> \<forall>it \<in> set its. avoids b it \<Longrightarrow> b \<notin> set u"
proof (induction its arbitrary: u)
  case Nil
  then show ?case by simp
next
  case (Cons it its)
  from Cons.prems have tl: "\<forall>it \<in> set its. avoids b it" and hd: "avoids b it" by simp_all
  show ?case
  proof (cases it)
    case WordB
    with Cons.prems Cons.IH [OF _ tl] show ?thesis by simp
  next
    case (Lit l)
    with Cons.prems have pre: "ci_prefix l u" and rest: "lang its (drop (length l) u)" by simp_all
    from Cons.IH [OF rest tl] have "b \<notin> set (drop (length l) u)" .
    moreover have "b \<notin> set (take (length l) u)"
      using ci_prefix_chars [OF pre] hd Lit by auto
    ultimately show ?thesis by (metis Un_iff append_take_drop_id set_append)
  next
    case (Alt ls)
    with Cons.prems obtain l where l: "l \<in> set ls" and pre: "ci_prefix l u"
      and rest: "lang its (drop (length l) u)" by auto
    from Cons.IH [OF rest tl] have "b \<notin> set (drop (length l) u)" .
    moreover have "b \<notin> set (take (length l) u)"
      using ci_prefix_chars [OF pre] hd Alt l by auto
    ultimately show ?thesis by (metis Un_iff append_take_drop_id set_append)
  next
    case (Rep c lo hi)
    with Cons.prems obtain k where all: "\<forall>x \<in> set (take k u). c x" and rest: "lang its (drop k u)"
      by auto
    from Cons.IH [OF rest tl] have "b \<notin> set (drop k u)" .
    moreover have "b \<notin> set (take k u)" using all hd Rep by auto
    ultimately show ?thesis by (metis Un_iff append_take_drop_id set_append)
  qed
qed

lemma lang_tail: "lang (it # its) u \<Longrightarrow> \<exists>n. lang its (drop n u)"
proof (cases it)
  case WordB
  assume "lang (it # its) u"
  with WordB have "lang its (drop 0 u)" by simp
  then show ?thesis ..
qed auto

lemma lang_consumes:
  "lang its u \<Longrightarrow> \<exists>it \<in> set its. consumes it \<Longrightarrow> u \<noteq> []"
proof (induction its arbitrary: u)
  case Nil
  then show ?case by simp
next
  case (Cons it its)
  show ?case
  proof (cases "consumes it")
    case True
    show ?thesis
    proof (cases it)
      case WordB
      with True show ?thesis by simp
    next
      case (Lit l)
      with Cons.prems True have "ci_prefix l u" "l \<noteq> []" by simp_all
      then show ?thesis using ci_prefix_length by fastforce
    next
      case (Alt ls)
      with Cons.prems True obtain l where "l \<in> set ls" "ci_prefix l u" "l \<noteq> []" by auto
      then show ?thesis using ci_prefix_length by fastforce
    next
      case (Rep c lo hi)
      with Cons.prems True obtain k where "1 \<le> k" "k \<le> length u" by auto
      then show ?thesis by auto
    qed
  next
    case False
    with Cons.prems have tl: "\<exists>it \<in> set its. consumes it" by auto
    from lang_tail [OF Cons.prems(1)] obtain n where "lang its (drop n u)" ..
    from Cons.IH [OF this tl] show ?thesis by auto
  qed
qed

lemma tame_lang:
  assumes "tame pat" and "lang pat u"
  shows "u \<noteq> []" and "CHR ''['' \<notin> set u" and "CHR '']'' \<notin> set u"
  using assms lang_consumes [of pat u] lang_avoids [of pat u]
  by (auto simp: tame_def)

lemma tame_progress:
  assumes "tame pat" and "matchi pat p s = Some r"
  shows "length r < length s"
proof -
  from matchi_sound [OF assms(2)] obtain u where "s = u @ r" "lang pat u" by blast
  with tame_lang(1) [OF assms(1)] show ?thesis by auto
qed

lemma lang_needs_lit:
  "lang its u \<Longrightarrow> Lit l \<in> set its \<Longrightarrow> l \<noteq> [] \<Longrightarrow> \<exists>x \<in> set u. fold_case x = fold_case (hd l)"
proof (induction its arbitrary: u)
  case Nil
  then show ?case by simp
next
  case (Cons it its)
  show ?case
  proof (cases "it = Lit l")
    case True
    with Cons.prems have pre: "ci_prefix l u" by simp
    with Cons.prems(3) obtain p ps x xs where "l = p # ps" "u = x # xs" "fold_case p = fold_case x"
      by (cases l; cases u) auto
    then show ?thesis by auto
  next
    case False
    with Cons.prems have mem: "Lit l \<in> set its" by simp
    from lang_tail [OF Cons.prems(1)] obtain n where "lang its (drop n u)" ..
    from Cons.IH [OF this mem Cons.prems(3)] show ?thesis
      by (meson in_set_dropD)
  qed
qed

lemma self_in_tails: "s \<in> set (tails s)"
  by (cases s) simp_all

lemma tails_suffix: "s = a @ b \<Longrightarrow> b \<in> set (tails s)"
proof (induction a arbitrary: s)
  case Nil
  then show ?case by (simp add: self_in_tails)
next
  case (Cons x a)
  then show ?case by simp
qed

lemma foreign_by_tails:
  assumes "WordB \<notin> set pat" and "list_all (\<lambda>t. matchi pat None t = None) (tails P)"
  shows "foreign pat P"
  unfolding foreign_def
proof (intro allI impI notI)
  fix a u b
  assume P: "P = a @ u @ b" and "lang pat u"
  then have "matchi pat None (u @ b) \<noteq> None" using assms(1) by (intro matchi_complete)
  moreover from P have "u @ b \<in> set (tails P)" by (rule tails_suffix)
  ultimately show False using assms(2) by (simp add: list_all_iff)
qed

lemma foreign_by_lit:
  assumes "Lit l \<in> set pat" and "l \<noteq> []" and "\<forall>x \<in> set P. fold_case x \<noteq> fold_case (hd l)"
  shows "foreign pat P"
  unfolding foreign_def
proof (intro allI impI notI)
  fix a u b
  assume P: "P = a @ u @ b" and "lang pat u"
  from lang_needs_lit [OF this(2) assms(1,2)] obtain x where "x \<in> set u" "fold_case x = fold_case (hd l)"
    by blast
  with P assms(3) show False by auto
qed

lemmas class_defs = is_word_def is_space_def is_alnum_def is_letter_def is_digit_def fold_case_def code_def

lemmas pattern_defs = email_pat_def ip_pat_def bearer_token_pat_def aws_key_pat_def generic_secret_pat_def
  quote_chars_def

lemma tame_detectors:
  "tame email_pat" "tame ip_pat" "tame bearer_token_pat" "tame aws_key_pat" "tame generic_secret_pat"
  by (simp_all add: tame_def pattern_defs class_defs)

lemma placeholders:
  "placeholder ''email'' = ''[REDACTED_EMAIL]''"
  "placeholder ''ip'' = ''[REDACTED_IP]''"
  "placeholder ''bearer_token'' = ''[REDACTED_BEARER_TOKEN]''"
  "placeholder ''aws_key'' = ''[REDACTED_AWS_KEY]''"
  "placeholder ''generic_secret'' = ''[REDACTED_GENERIC_SECRET]''"
  by (simp_all add: placeholder_def upper_char_def)

subsection \<open>The detectors and the placeholders\<close>

lemma quiet_email:
  "list_all (\<lambda>P. list_all (\<lambda>t. matchi email_pat None t = None) (tails P)) all_placeholders"
  by code_simp

lemma quiet_bearer_token:
  "list_all (\<lambda>P. list_all (\<lambda>t. matchi bearer_token_pat None t = None) (tails P)) all_placeholders"
  by code_simp

lemma quiet_aws_key:
  "list_all (\<lambda>P. list_all (\<lambda>t. matchi aws_key_pat None t = None) (tails P)) all_placeholders"
  by code_simp

lemma quiet_generic_secret:
  "list_all (\<lambda>P. list_all (\<lambda>t. matchi generic_secret_pat None t = None) (tails P)) all_placeholders"
  by code_simp

lemma no_dot_in_placeholders:
  "list_all (\<lambda>P. list_all (\<lambda>x. fold_case x \<noteq> fold_case (hd ''.'')) P) all_placeholders"
  by code_simp

lemma wordb_free:
  "WordB \<notin> set email_pat" "WordB \<notin> set bearer_token_pat" "WordB \<notin> set aws_key_pat"
  "WordB \<notin> set generic_secret_pat"
  by (simp_all add: pattern_defs)

lemma foreign_placeholders:
  assumes P: "P \<in> set all_placeholders"
  shows "foreign email_pat P" "foreign ip_pat P" "foreign bearer_token_pat P" "foreign aws_key_pat P"
    "foreign generic_secret_pat P"
proof -
  show "foreign email_pat P"
    using quiet_email P by (intro foreign_by_tails wordb_free) (simp add: list_all_iff)
  show "foreign bearer_token_pat P"
    using quiet_bearer_token P by (intro foreign_by_tails wordb_free) (simp add: list_all_iff)
  show "foreign aws_key_pat P"
    using quiet_aws_key P by (intro foreign_by_tails wordb_free) (simp add: list_all_iff)
  show "foreign generic_secret_pat P"
    using quiet_generic_secret P by (intro foreign_by_tails wordb_free) (simp add: list_all_iff)
  have "Lit ''.'' \<in> set ip_pat" by (simp add: ip_pat_def)
  moreover have "\<forall>x \<in> set P. fold_case x \<noteq> fold_case (hd ''.'')"
    using no_dot_in_placeholders P by (simp add: list_all_iff)
  ultimately show "foreign ip_pat P" by (intro foreign_by_lit [of "''.''"]) simp_all
qed

subsection \<open>Scanning a text\<close>

lemma sub_sub_from: "sub pat repl s = sub_from pat repl None s"
  by (simp add: sub_def sub_from_def)

lemma findall_hits_from: "findall pat s = hits_from pat None s"
  by (simp add: findall_def hits_from_def)

declare scan.simps [simp del]

lemma scan_Nil: "matchi pat prev [] = None \<Longrightarrow> scan pat prev [] = []"
  by (subst scan.simps) simp

lemma scan_Keep:
  "matchi pat prev (c # cs) = None \<Longrightarrow> scan pat prev (c # cs) = Keep c # scan pat (Some c) cs"
  by (subst scan.simps) simp

lemma scan_Hit:
  "matchi pat prev s = Some r \<Longrightarrow> length r < length s \<Longrightarrow>
   scan pat prev s = Hit (take (length s - length r) s)
                       # scan pat (prev_after prev (take (length s - length r) s)) r"
  by (subst scan.simps) simp

text \<open>The three ways a scan of a tame pattern can start.\<close>

lemma scan_cases:
  assumes "tame pat"
  obtains (empty) "s = []" "scan pat prev s = []"
  | (keep) c cs where "s = c # cs" "matchi pat prev s = None"
      "scan pat prev s = Keep c # scan pat (Some c) cs"
  | (hit) m r p' where "s = m @ r" "lang pat m" "m \<noteq> []" "matchi pat prev s = Some r"
      "scan pat prev s = Hit m # scan pat p' r"
proof (cases "matchi pat prev s")
  case None
  show ?thesis
  proof (cases s)
    case Nil
    with None empty scan_Nil show ?thesis by simp
  next
    case (Cons c cs)
    with None keep scan_Keep show ?thesis by simp
  qed
next
  case (Some r)
  from matchi_sound [OF Some] obtain m where m: "s = m @ r" "lang pat m" by blast
  from tame_lang(1) [OF assms m(2)] have ne: "m \<noteq> []" .
  from tame_progress [OF assms Some] have lt: "length r < length s" .
  have "take (length s - length r) s = m" using m(1) by simp
  with scan_Hit [OF Some lt] have "scan pat prev s = Hit m # scan pat (prev_after prev m) r" by simp
  with m ne Some hit show ?thesis by blast
qed

lemma sub_from_keep:
  "scan pat prev s = Keep c # scan pat p' cs \<Longrightarrow>
   sub_from pat repl prev s = c # sub_from pat repl p' cs"
  by (simp add: sub_from_def)

lemma sub_from_hit:
  "scan pat prev s = Hit m # scan pat p' r \<Longrightarrow>
   sub_from pat repl prev s = repl @ sub_from pat repl p' r"
  by (simp add: sub_from_def)

lemma sub_from_prefix:
  assumes "tame pat" and "repl \<noteq> []" and "hd repl = CHR ''[''"
  shows "sub_from pat repl prev w = u @ b \<Longrightarrow> CHR ''['' \<notin> set u \<Longrightarrow> \<exists>b'. w = u @ b'"
proof (induction u arbitrary: w prev)
  case Nil
  then show ?case by simp
next
  case (Cons x u)
  from assms(1) show ?case
  proof (cases rule: scan_cases [where s = w and prev = prev])
    case empty
    with Cons.prems(1) show ?thesis by (simp add: sub_from_def)
  next
    case (keep c cs)
    from Cons.prems(1) sub_from_keep [OF keep(3), of repl]
    have "x = c" "sub_from pat repl (Some c) cs = u @ b" by auto
    with Cons.IH [of "Some c" cs] Cons.prems(2) keep(1) show ?thesis by auto
  next
    case (hit m r p')
    from Cons.prems(1) sub_from_hit [OF hit(5), of repl]
    have "repl @ sub_from pat repl p' r = x # u @ b" by simp
    with assms(2,3) have "x = CHR ''[''" by (cases repl) auto
    with Cons.prems(2) show ?thesis by simp
  qed
qed

lemma foreignD: "foreign d T \<Longrightarrow> T = a @ u @ b \<Longrightarrow> lang d u \<Longrightarrow> False"
  by (auto simp: foreign_def)

lemma split_over_placeholder:
  assumes eq: "P @ T = a @ u @ b" and "P \<noteq> []" and "last P \<notin> set u"
  shows "(\<exists>a'. T = a' @ u @ b) \<or> (\<exists>a' b'. P = a' @ u @ b')"
proof -
  from eq obtain us where "(P = a @ us \<and> us @ T = u @ b) \<or> (P @ us = a \<and> T = us @ u @ b)"
    by (auto simp: append_eq_append_conv2)
  then show ?thesis
  proof
    assume "P @ us = a \<and> T = us @ u @ b"
    then show ?thesis by blast
  next
    assume h: "P = a @ us \<and> us @ T = u @ b"
    then obtain vs where "(us = u @ vs \<and> vs @ T = b) \<or> (us @ vs = u \<and> T = vs @ b)"
      by (auto simp: append_eq_append_conv2)
    then show ?thesis
    proof
      assume "us = u @ vs \<and> vs @ T = b"
      with h show ?thesis by blast
    next
      assume k: "us @ vs = u \<and> T = vs @ b"
      show ?thesis
      proof (cases "us = []")
        case True
        with k have "T = [] @ u @ b" by simp
        then show ?thesis by blast
      next
        case False
        with h have "last P = last us" by simp
        with False k have "last P \<in> set u" by auto
        with assms(3) show ?thesis by simp
      qed
    qed
  qed
qed

text \<open>
  The text that the detector \<open>e\<close> leaves has no word of \<open>d\<close> in it, provided no word of
  \<open>d\<close> starts where \<open>e\<close> found no match, and \<open>d\<close> has no word inside the placeholder.
\<close>

lemma sub_from_foreign:
  assumes e: "tame e" and d: "tame d"
    and P: "P \<noteq> []" "hd P = CHR ''[''" "last P = CHR '']''" "foreign d P"
  shows "(\<And>x s p u b. w = x @ s \<Longrightarrow> matchi e p s = None \<Longrightarrow> s = u @ b \<Longrightarrow> \<not> lang d u)
         \<Longrightarrow> foreign d (sub_from e P prev w)"
proof (induction "length w" arbitrary: w prev rule: less_induct)
  case less
  note local = less.prems
  from e show ?case
  proof (cases rule: scan_cases [where s = w and prev = prev])
    case empty
    then have "sub_from e P prev w = []" by (simp add: sub_from_def)
    then show ?thesis using tame_lang(1) [OF d] by (auto simp: foreign_def)
  next
    case (keep c cs)
    let ?T = "sub_from e P (Some c) cs"
    have out: "sub_from e P prev w = c # ?T" using keep(3) by (rule sub_from_keep)
    have "foreign d ?T"
    proof (rule less.hyps)
      show "length cs < length w" using keep by simp
      fix x s p u b
      assume "cs = x @ s" "matchi e p s = None" "s = u @ b"
      with keep(1) local [of "c # x" s p u b] show "\<not> lang d u" by simp
    qed
    show ?thesis
      unfolding foreign_def out
    proof (intro allI impI notI)
      fix a u b
      assume eq: "c # ?T = a @ u @ b" and lang: "lang d u"
      show False
      proof (cases a)
        case (Cons a0 a')
        with eq have "?T = a' @ u @ b" by auto
        with \<open>foreign d ?T\<close> lang show False by (auto simp: foreign_def)
      next
        case Nil
        from tame_lang [OF d lang] have ne: "u \<noteq> []" and nb: "CHR ''['' \<notin> set u" by simp_all
        from ne obtain u' where u: "u = c # u'" and T: "?T = u' @ b"
          using eq Nil by (cases u) auto
        from nb u have "CHR ''['' \<notin> set u'" by simp
        from sub_from_prefix [OF e P(1,2) T this] obtain b' where "cs = u' @ b'" ..
        with keep(1) u have "w = u @ b'" by simp
        with local [of "[]" w prev u b'] keep(2) lang show False by simp
      qed
    qed
  next
    case (hit m r p')
    let ?T = "sub_from e P p' r"
    have out: "sub_from e P prev w = P @ ?T" using hit(5) by (rule sub_from_hit)
    have "foreign d ?T"
    proof (rule less.hyps)
      show "length r < length w" using hit by simp
      fix x s p u b
      assume "r = x @ s" "matchi e p s = None" "s = u @ b"
      with hit(1) local [of "m @ x" s p u b] show "\<not> lang d u" by simp
    qed
    show ?thesis
      unfolding foreign_def out
    proof (intro allI impI notI)
      fix a u b
      assume eq: "P @ ?T = a @ u @ b" and lang: "lang d u"
      from tame_lang(3) [OF d lang] P(3) have "last P \<notin> set u" by simp
      from split_over_placeholder [OF eq P(1) this]
      show False
      proof
        assume "\<exists>a'. ?T = a' @ u @ b"
        then obtain a' where "?T = a' @ u @ b" ..
        from foreignD [OF \<open>foreign d ?T\<close> this lang] show False .
      next
        assume "\<exists>a' b'. P = a' @ u @ b'"
        then obtain a' b' where "P = a' @ u @ b'" by blast
        from foreignD [OF P(4) this lang] show False .
      qed
    qed
  qed
qed

text \<open>A detector without \<open>\b\<close> leaves no word of its own.\<close>

lemma sub_from_own:
  assumes d: "tame d" and wf: "WordB \<notin> set d"
    and P: "P \<noteq> []" "hd P = CHR ''[''" "last P = CHR '']''" "foreign d P"
  shows "foreign d (sub_from d P prev w)"
proof (rule sub_from_foreign [OF d d P])
  fix x s p u b
  assume "matchi d p s = None" and s: "s = u @ b"
  show "\<not> lang d u"
  proof
    assume "lang d u"
    from matchi_complete [OF this wf, of p b] s \<open>matchi d p s = None\<close> show False by simp
  qed
qed

text \<open>Another detector keeps the text free of the words of \<open>d\<close>.\<close>

lemma sub_from_other:
  assumes e: "tame e" and d: "tame d"
    and P: "P \<noteq> []" "hd P = CHR ''[''" "last P = CHR '']''" "foreign d P"
    and w: "foreign d w"
  shows "foreign d (sub_from e P prev w)"
proof (rule sub_from_foreign [OF e d P])
  fix x s p u b
  assume "w = x @ s" "s = u @ b"
  then have "w = x @ u @ b" by simp
  with w show "\<not> lang d u" by (auto simp: foreign_def)
qed

subsection \<open>Matches and placeholders in a scan\<close>

lemma hits_from_empty: "scan pat prev s = [] \<Longrightarrow> hits_from pat prev s = []"
  by (simp add: hits_from_def)

lemma hits_from_keep:
  "scan pat prev s = Keep c # scan pat p' cs \<Longrightarrow> hits_from pat prev s = hits_from pat p' cs"
  by (simp add: hits_from_def)

lemma hits_from_hit:
  "scan pat prev s = Hit m # scan pat p' r \<Longrightarrow> hits_from pat prev s = m # hits_from pat p' r"
  by (simp add: hits_from_def)

lemma sub_from_empty: "scan pat prev s = [] \<Longrightarrow> sub_from pat repl prev s = []"
  by (simp add: sub_from_def)


text \<open>Where nothing is found, nothing is replaced.\<close>

lemma no_hits_sub_from:
  assumes "tame pat"
  shows "hits_from pat prev s = [] \<Longrightarrow> sub_from pat repl prev s = s"
proof (induction "length s" arbitrary: s prev rule: less_induct)
  case less
  from assms show ?case
  proof (cases rule: scan_cases [where s = s and prev = prev])
    case empty
    then show ?thesis by (simp add: sub_from_empty)
  next
    case (keep c cs)
    from less.prems hits_from_keep [OF keep(3)] have "hits_from pat (Some c) cs = []" by simp
    with less.hyps [of cs "Some c"] keep(1) have "sub_from pat repl (Some c) cs = cs" by simp
    with sub_from_keep [OF keep(3), of repl] keep(1) show ?thesis by simp
  next
    case (hit m r p')
    with less.prems hits_from_hit [OF hit(5)] show ?thesis by simp
  qed
qed


text \<open>A text without a word of the pattern has no match.\<close>

lemma foreign_no_hits:
  assumes "tame pat" and "foreign pat w"
  shows "w = x @ s \<Longrightarrow> hits_from pat prev s = []"
proof (induction "length s" arbitrary: s prev x rule: less_induct)
  case less
  from assms(1) show ?case
  proof (cases rule: scan_cases [where s = s and prev = prev])
    case empty
    then show ?thesis by (simp add: hits_from_empty)
  next
    case (keep c cs)
    with less.prems have "w = (x @ [c]) @ cs" by simp
    with less.hyps [of cs "x @ [c]" "Some c"] keep(1) have "hits_from pat (Some c) cs = []" by simp
    with hits_from_keep [OF keep(3)] show ?thesis by simp
  next
    case (hit m r p')
    with less.prems have "w = x @ m @ r" by simp
    from foreignD [OF assms(2) this hit(2)] show ?thesis ..
  qed
qed




text \<open>Every match adds one opening bracket to the text.\<close>

lemma brackets_sub_from:
  assumes e: "tame e" and P: "count_list P CHR ''['' = 1"
  shows "count_list (sub_from e P prev w) CHR ''[''
         = count_list w CHR ''['' + length (hits_from e prev w)"
proof (induction "length w" arbitrary: w prev rule: less_induct)
  case less
  from e show ?case
  proof (cases rule: scan_cases [where s = w and prev = prev])
    case empty
    then show ?thesis by (simp add: sub_from_empty hits_from_empty)
  next
    case (keep c cs)
    from less.hyps [of cs "Some c"] keep(1)
    have IH: "count_list (sub_from e P (Some c) cs) CHR ''[''
          = count_list cs CHR ''['' + length (hits_from e (Some c) cs)" by simp
    have "sub_from e P prev w = [c] @ sub_from e P (Some c) cs"
      using sub_from_keep [OF keep(3), of P] by simp
    then have A: "count_list (sub_from e P prev w) CHR ''[''
          = count_list [c] CHR ''['' + count_list (sub_from e P (Some c) cs) CHR ''[''"
      by (simp only: count_list_append)
    have "w = [c] @ cs" using keep(1) by simp
    then have B: "count_list w CHR ''['' = count_list [c] CHR ''['' + count_list cs CHR ''[''"
      by (simp only: count_list_append)
    show ?thesis unfolding A B IH hits_from_keep [OF keep(3)] by simp
  next
    case (hit m r p')
    from less.hyps [of r p'] hit(1,3)
    have "count_list (sub_from e P p' r) CHR ''[''
          = count_list r CHR ''['' + length (hits_from e p' r)" by simp
    moreover from tame_lang(2) [OF e hit(2)] have "count_list m CHR ''['' = 0"
      by (simp add: count_list_0_iff)
    ultimately show ?thesis
      using sub_from_hit [OF hit(5), of P] hits_from_hit [OF hit(5)] hit(1) P by simp
  qed
qed

subsection \<open>Re-running \<open>scrub_text\<close>, and what a match leaves behind\<close>


lemma detectors:
  assumes "d \<in> set PATTERNS"
  shows "tame (snd d)" and "placeholder (fst d) \<in> set all_placeholders"
    and "fst d \<noteq> ''ip'' \<Longrightarrow> WordB \<notin> set (snd d)"
  using assms by (auto simp: PATTERNS_def all_placeholders_def tame_detectors wordb_free)

lemma detector_progress:
  "d \<in> set PATTERNS \<Longrightarrow> matchi (snd d) prev s = Some r \<Longrightarrow> length r < length s"
  by (rule tame_progress [OF detectors(1)])

lemma detector_foreign:
  assumes "d \<in> set PATTERNS" and "e \<in> set PATTERNS"
  shows "foreign (snd d) (placeholder (fst e))"
proof -
  from assms(2) have P: "placeholder (fst e) \<in> set all_placeholders" by (rule detectors(2))
  from assms(1) consider "snd d = email_pat" | "snd d = ip_pat" | "snd d = bearer_token_pat"
    | "snd d = aws_key_pat" | "snd d = generic_secret_pat"
    by (auto simp: PATTERNS_def)
  then show ?thesis using foreign_placeholders [OF P] by cases simp_all
qed

lemma placeholder_shape:
  "placeholder n \<noteq> []" "hd (placeholder n) = CHR ''[''" "last (placeholder n) = CHR '']''"
  by (simp_all add: placeholder_def)

lemma placeholder_brackets: "d \<in> set PATTERNS \<Longrightarrow> count_list (placeholder (fst d)) CHR ''['' = 1"
  by (auto simp: PATTERNS_def placeholders)

lemma redact_sub_from:
  assumes "d \<in> set PATTERNS"
  shows "redact d T = sub_from (snd d) (placeholder (fst d)) None T"
proof (cases "findall (snd d) T = []")
  case True
  then have "hits_from (snd d) None T = []" by (simp add: findall_hits_from)
  from no_hits_sub_from [OF detectors(1) [OF assms] this] True show ?thesis
    by (simp add: redact_def)
next
  case False
  then show ?thesis by (simp add: redact_def sub_sub_from)
qed

lemma redact_other:
  assumes d: "d \<in> set PATTERNS" and e: "e \<in> set PATTERNS" and T: "foreign (snd d) T"
  shows "foreign (snd d) (redact e T)"
  unfolding redact_sub_from [OF e]
  by (rule sub_from_other [OF detectors(1) [OF e] detectors(1) [OF d] placeholder_shape
        detector_foreign [OF d e] T])

lemma redact_own:
  assumes d: "d \<in> set PATTERNS" and "fst d \<noteq> ''ip''"
  shows "foreign (snd d) (redact d T)"
  unfolding redact_sub_from [OF d]
  by (rule sub_from_own [OF detectors(1) [OF d] detectors(3) [OF d assms(2)] placeholder_shape
        detector_foreign [OF d d]])

lemma fold_redact_other:
  assumes d: "d \<in> set PATTERNS"
  shows "set es \<subseteq> set PATTERNS \<Longrightarrow> foreign (snd d) T \<Longrightarrow> foreign (snd d) (fold redact es T)"
proof (induction es arbitrary: T)
  case Nil
  then show ?case by simp
next
  case (Cons e es)
  then have e: "e \<in> set PATTERNS" and es: "set es \<subseteq> set PATTERNS" by simp_all
  from redact_other [OF d e Cons.prems(2)] have "foreign (snd d) (redact e T)" .
  from Cons.IH [OF es this] show ?case by simp
qed

lemma foreign_Nil: "tame d \<Longrightarrow> foreign d []"
  using tame_lang(1) by (auto simp: foreign_def)

lemma scrub_text_foreign:
  assumes d: "d \<in> set PATTERNS" and ip: "fst d \<noteq> ''ip''"
  shows "foreign (snd d) (scrub_text s)"
proof (cases "s = []")
  case True
  then show ?thesis using foreign_Nil [OF detectors(1) [OF d]] by (simp add: scrub_text_def)
next
  case False
  from d obtain before after where split: "PATTERNS = before @ d # after"
    by (meson split_list)
  have after: "set after \<subseteq> set PATTERNS" unfolding split by auto
  have "fold redact PATTERNS s = fold redact after (redact d (fold redact before s))"
    unfolding split by simp
  moreover have "foreign (snd d) (fold redact after (redact d (fold redact before s)))"
    by (rule fold_redact_other [OF d after redact_own [OF d ip]])
  ultimately show ?thesis using False by (simp add: scrub_text_def)
qed

lemma foreign_findall: "tame pat \<Longrightarrow> foreign pat T \<Longrightarrow> findall pat T = []"
  using foreign_no_hits [of pat T "[]" T None] by (simp add: findall_hits_from)

lemma findall_Nil: "tame pat \<Longrightarrow> findall pat [] = []"
  by (rule foreign_findall) (simp_all add: foreign_Nil)

lemma scrub_text_quiet:
  "d \<in> set PATTERNS \<Longrightarrow> fst d \<noteq> ''ip'' \<Longrightarrow> findall (snd d) (scrub_text s) = []"
  by (rule foreign_findall [OF detectors(1) scrub_text_foreign])

lemma scrub_text_quiet_each:
  "findall email_pat (scrub_text s) = []" "findall bearer_token_pat (scrub_text s) = []"
  "findall aws_key_pat (scrub_text s) = []" "findall generic_secret_pat (scrub_text s) = []"
  using scrub_text_quiet [of "(''email'', email_pat)" s]
    scrub_text_quiet [of "(''bearer_token'', bearer_token_pat)" s]
    scrub_text_quiet [of "(''aws_key'', aws_key_pat)" s]
    scrub_text_quiet [of "(''generic_secret'', generic_secret_pat)" s]
  by (simp_all add: PATTERNS_def)

lemma placeholders_quiet:
  "d \<in> set PATTERNS \<Longrightarrow> e \<in> set PATTERNS \<Longrightarrow> findall (snd d) (placeholder (fst e)) = []"
  by (rule foreign_findall [OF detectors(1) detector_foreign])

lemma rescrub_quiet:
  assumes "findall ip_pat (scrub_text s) = []"
  shows "scrub_text (scrub_text s) = scrub_text s"
proof -
  define T where "T = scrub_text s"
  have q: "findall email_pat T = []" "findall ip_pat T = []" "findall bearer_token_pat T = []"
    "findall aws_key_pat T = []" "findall generic_secret_pat T = []"
    unfolding T_def using assms by (simp_all add: scrub_text_quiet_each)
  have "scrub_text T = T" by (simp add: scrub_text_def PATTERNS_def redact_def q)
  then show ?thesis by (simp add: T_def)
qed

lemma brackets_redact:
  assumes "d \<in> set PATTERNS"
  shows "count_list (redact d T) CHR ''[''
         = count_list T CHR ''['' + length (findall (snd d) T)"
  unfolding redact_sub_from [OF assms] findall_hits_from
  by (rule brackets_sub_from [OF detectors(1) [OF assms] placeholder_brackets [OF assms]])

lemma brackets_fold_redact:
  "set es \<subseteq> set PATTERNS \<Longrightarrow> count_list T CHR ''['' \<le> count_list (fold redact es T) CHR ''[''"
proof (induction es arbitrary: T)
  case Nil
  show ?case by simp
next
  case (Cons e es)
  then have e: "e \<in> set PATTERNS" and es: "set es \<subseteq> set PATTERNS" by simp_all
  have "count_list T CHR ''['' \<le> count_list (redact e T) CHR ''[''"
    by (simp add: brackets_redact [OF e])
  also have "\<dots> \<le> count_list (fold redact es (redact e T)) CHR ''[''" by (rule Cons.IH [OF es])
  finally show ?case by simp
qed

lemma rescrub_loud:
  assumes "findall ip_pat (scrub_text s) \<noteq> []"
  shows "scrub_text (scrub_text s) \<noteq> scrub_text s"
proof -
  define T where "T = scrub_text s"
  from assms have ip: "findall ip_pat T \<noteq> []" by (simp add: T_def)
  have ne: "T \<noteq> []" using ip findall_Nil [OF tame_detectors(2)] by auto
  have em: "redact (''email'', email_pat) T = T"
    by (simp add: redact_def T_def scrub_text_quiet_each)
  let ?rest = "[(''bearer_token'', bearer_token_pat), (''aws_key'', aws_key_pat),
                (''generic_secret'', generic_secret_pat)]"
  let ?X = "fold redact ?rest (redact (''ip'', ip_pat) T)"
  have out: "scrub_text T = ?X"
    using ne em by (simp add: scrub_text_def PATTERNS_def)
  have "count_list (redact (''ip'', ip_pat) T) CHR ''['' \<le> count_list ?X CHR ''[''"
    by (rule brackets_fold_redact) (simp add: PATTERNS_def)
  moreover have "count_list (redact (''ip'', ip_pat) T) CHR ''[''
        = count_list T CHR ''['' + length (findall ip_pat T)"
    using brackets_redact [of "(''ip'', ip_pat)" T] by (simp add: PATTERNS_def)
  moreover from ip have "0 < length (findall ip_pat T)" by simp
  ultimately have "count_list T CHR ''['' < count_list ?X CHR ''[''" by linarith
  then have "?X \<noteq> T" by auto
  then have "scrub_text T \<noteq> T" unfolding out .
  then show ?thesis by (simp add: T_def)
qed

text \<open>
  Claim C5, as amended. Running \<open>scrub_text\<close> on its own output changes nothing exactly
  when the IPv4 detector finds no match in that output. The other four detectors never
  find a match in the output of \<open>scrub_text\<close>, and no detector finds a match in a
  placeholder.
\<close>

theorem rescrub_iff_no_ip_left:
  "(scrub_text (scrub_text s) = scrub_text s \<longleftrightarrow> findall ip_pat (scrub_text s) = [])
   \<and> findall email_pat (scrub_text s) = [] \<and> findall bearer_token_pat (scrub_text s) = []
   \<and> findall aws_key_pat (scrub_text s) = [] \<and> findall generic_secret_pat (scrub_text s) = []
   \<and> list_all (\<lambda>d. list_all (\<lambda>e. findall (snd d) (placeholder (fst e)) = []) PATTERNS) PATTERNS"
proof -
  have "scrub_text (scrub_text s) = scrub_text s \<longleftrightarrow> findall ip_pat (scrub_text s) = []"
    using rescrub_quiet [of s] rescrub_loud [of s] by blast
  moreover have "list_all (\<lambda>d. list_all (\<lambda>e. findall (snd d) (placeholder (fst e)) = []) PATTERNS) PATTERNS"
    by (simp add: list_all_iff placeholders_quiet)
  ultimately show ?thesis using scrub_text_quiet_each [of s] by (intro conjI)
qed

lemma scrubbed_mail: "scrub_text ''a@b.co'' = ''[REDACTED_EMAIL]''"
  by code_simp

lemma no_ip_in_mail_placeholder: "findall ip_pat ''[REDACTED_EMAIL]'' = []"
  by code_simp

theorem rescrub_iff_no_ip_left_witness:
  "scrub_text ''a@b.co'' = ''[REDACTED_EMAIL]''
   \<and> findall ip_pat (scrub_text ''a@b.co'') = []
   \<and> scrub_text (scrub_text ''a@b.co'') = scrub_text ''a@b.co''"
proof -
  have g: "findall ip_pat (scrub_text ''a@b.co'') = []"
    unfolding scrubbed_mail by (rule no_ip_in_mail_placeholder)
  from conjunct1 [OF rescrub_iff_no_ip_left [of "''a@b.co''"]] g
  have "scrub_text (scrub_text ''a@b.co'') = scrub_text ''a@b.co''" by (rule iffD2)
  with scrubbed_mail g show ?thesis by (intro conjI)
qed

lemma scrub_glued_ip: "scrub_text ''1.2.3.4Bearer x'' = ''1.2.3.4[REDACTED_BEARER_TOKEN]''"
  by code_simp

lemma scrub_bared_ip: "scrub_text ''1.2.3.4[REDACTED_BEARER_TOKEN]'' = ''[REDACTED_IP][REDACTED_BEARER_TOKEN]''"
  by code_simp

text \<open>
  Claim C5 as stated fails. In \<open>1.2.3.4Bearer x\<close> a letter follows the address, so \<open>\b\<close>
  keeps the IPv4 detector from matching it. The bearer-token detector then puts its
  placeholder, which begins with a bracket, behind the address, and a second run of
  \<open>scrub_text\<close> redacts the address.
\<close>

theorem rescrub_changes_output:
  "scrub_text ''1.2.3.4Bearer x'' = ''1.2.3.4[REDACTED_BEARER_TOKEN]''
   \<and> scrub_text (scrub_text ''1.2.3.4Bearer x'') = ''[REDACTED_IP][REDACTED_BEARER_TOKEN]''
   \<and> scrub_text (scrub_text ''1.2.3.4Bearer x'') \<noteq> scrub_text ''1.2.3.4Bearer x''"
  by (simp add: scrub_glued_ip scrub_bared_ip)













end
